theory Spec2Isabelle
  imports Complex_Main
begin

unbundle bit_operations_syntax

section \<open>JavaScript values used by laminar-devtools.js\<close>

text \<open>
  Pixel coordinates are JavaScript numbers; they are modelled as exact reals, so
  rounding, NaN and the infinities are outside the model. \<open>null\<close> and
  \<open>undefined\<close> are both \<open>None\<close>: the code only ever tests them for truthiness.
\<close>

text \<open>\<open>parseInt(css) || dflt\<close>: NaN (\<open>None\<close>) and 0 are falsy and give the default.\<close>

definition parseIntOr :: "int option \<Rightarrow> int \<Rightarrow> int" where
  "parseIntOr parsed dflt =
     (case parsed of None \<Rightarrow> dflt | Some n \<Rightarrow> if n = 0 then dflt else n)"

text \<open>\<open>arr[i]\<close>: reading outside the array gives \<open>undefined\<close>.\<close>

definition arrayAt :: "'a list \<Rightarrow> int \<Rightarrow> 'a option" where
  "arrayAt arr i = (if 0 \<le> i \<and> i < int (length arr) then Some (arr ! nat i) else None)"

text \<open>\<open>arr.indexOf(x)\<close>: the first index holding \<open>x\<close>, or \<open>-1\<close>.\<close>

fun indexOfFrom :: "int \<Rightarrow> 'a list \<Rightarrow> 'a \<Rightarrow> int" where
  "indexOfFrom i [] x = - 1"
| "indexOfFrom i (y # ys) x = (if y = x then i else indexOfFrom (i + 1) ys x)"

definition indexOf :: "'a list \<Rightarrow> 'a \<Rightarrow> int" where
  "indexOf arr x = indexOfFrom 0 arr x"

text \<open>The remainder operator \<open>%\<close>: the sign of the result follows the dividend.\<close>

definition js_rem :: "int \<Rightarrow> int \<Rightarrow> int" where
  "js_rem a b = (if 0 \<le> a then a mod \<bar>b\<bar> else - ((- a) mod \<bar>b\<bar>))"

text \<open>\<open>s.includes(t)\<close>: \<open>t\<close> occurs in \<open>s\<close> as a contiguous substring.\<close>

fun startsWith :: "string \<Rightarrow> string \<Rightarrow> bool" where
  "startsWith s [] = True"
| "startsWith [] (c # t) = False"
| "startsWith (d # s) (c # t) = (d = c \<and> startsWith s t)"

fun str_includes :: "string \<Rightarrow> string \<Rightarrow> bool" where
  "str_includes [] t = (t = [])"
| "str_includes (d # s) t = (startsWith (d # s) t \<or> str_includes s t)"


section \<open>The rendered element tree and PropertyAccessor\<close>

text \<open>
  The three devtools properties of an element. Each is an own property that is either
  absent (\<open>None\<close>) or holds a string.
\<close>

record el_props =
  scalasourcepath :: "string option"
  scalafilename :: "string option"
  scalasourceline :: "string option"

text \<open>
  The element tree below \<open>document.body\<close>: every element carries its properties and its
  child elements in document order. The root of the tree is \<open>document.body\<close> itself;
  the \<open>html\<close> element above it is not part of the model and carries no devtools
  property.
\<close>

datatype dom_node = DomNode (nodeProps: el_props) (childElements: "dom_node list")

text \<open>
  An element reference is the chain of child indices from the element up to
  \<open>document.body\<close>: \<open>i # p\<close> is the \<open>i\<close>-th child element of \<open>p\<close>, and \<open>[]\<close> is
  \<open>document.body\<close>. Two references are the same element exactly when they are equal, as
  \<open>===\<close> on elements. The model covers the elements attached to the document: an index
  chain that leads outside the tree is no element of the page and has no properties
  (an element removed from the document, which in the DOM keeps its properties and
  has no parent, is not modelled).
\<close>

type_synonym element = "nat list"

fun descend :: "dom_node \<Rightarrow> nat list \<Rightarrow> dom_node option" where
  "descend n [] = Some n"
| "descend n (i # path) =
     (if i < length (childElements n) then descend (childElements n ! i) path else None)"

definition nodeAt :: "dom_node \<Rightarrow> element \<Rightarrow> dom_node option" where
  "nodeAt body e = descend body (rev e)"

text \<open>\<open>element.parentElement\<close>; above \<open>document.body\<close> the model has no element.\<close>

fun parentElement :: "element \<Rightarrow> element option" where
  "parentElement [] = None"
| "parentElement (i # p) = Some p"

text \<open>Truthiness of a property value: \<open>undefined\<close> and the empty string are falsy.\<close>

fun truthy :: "string option \<Rightarrow> bool" where
  "truthy None = False"
| "truthy (Some s) = (s \<noteq> [])"

text \<open>The \<open>PropertyAccessor\<close> namespace.\<close>

definition hasSourcePath :: "dom_node \<Rightarrow> element \<Rightarrow> bool" where
  "hasSourcePath body e =
     (case nodeAt body e of None \<Rightarrow> False | Some n \<Rightarrow> scalasourcepath (nodeProps n) \<noteq> None)"

definition getSourcePath :: "dom_node \<Rightarrow> element \<Rightarrow> string option" where
  "getSourcePath body e =
     (case nodeAt body e of None \<Rightarrow> None | Some n \<Rightarrow> scalasourcepath (nodeProps n))"

definition getFilename :: "dom_node \<Rightarrow> element \<Rightarrow> string option" where
  "getFilename body e =
     (case nodeAt body e of None \<Rightarrow> None | Some n \<Rightarrow> scalafilename (nodeProps n))"

definition getSourceLine :: "dom_node \<Rightarrow> element \<Rightarrow> string option" where
  "getSourceLine body e =
     (case nodeAt body e of None \<Rightarrow> None | Some n \<Rightarrow> scalasourceline (nodeProps n))"

definition hasAllProperties :: "dom_node \<Rightarrow> element \<Rightarrow> bool" where
  "hasAllProperties body e =
     (truthy (getSourcePath body e) \<and> truthy (getFilename body e) \<and> truthy (getSourceLine body e))"


section \<open>DevtoolsState: the observable state store\<close>

text \<open>A thrown JavaScript value.\<close>

datatype js_error = JsError string

text \<open>The \<open>(type, data)\<close> pairs that \<open>notify\<close> is called with, one constructor per type.\<close>

datatype change =
    Reset
  | TreeSelectionActiveChanged bool
  | TreeSelectionChanged "element option"
  | KeyboardSelectionChanged "element option" "element option"
  | MousePositionChanged real real
  | AltKeyChanged bool
  | ShiftKeyChanged bool
  | TargetElementChanged "element option" "element option"
  | HierarchicalTooltipVisibilityChanged bool

text \<open>
  The fields of \<open>DevtoolsState\<close>, and \<open>bodyCursor\<close> for \<open>document.body.style.cursor\<close>,
  which the store writes. The record is extensible: the state of the subscribed
  components lives in its extension, so that an observer reads and writes the store and
  its own component.
\<close>

record devtools_state =
  altPressed :: bool
  shiftPressed :: bool
  currentTargetElement :: "element option"
  lastTargetElement :: "element option"
  currentMousePosition :: "real \<times> real"
  hierarchicalTooltipVisible :: bool
  hierarchicalTooltipTimeout :: "nat option"
  hierarchicalTooltipToggled :: bool
  keyboardNavigationActive :: bool
  keyboardSelectedElement :: "element option"
  treeSelectedElement :: "element option"
  treeSelectionActive :: bool
  bodyCursor :: string

text \<open>
  A run of the program: the world (store and components), what \<open>console.error\<close> has
  printed, and a record of every callback invocation made by \<open>notify\<close> (the index of the
  observer in registration order and the change it was called with). The last field is
  not in the source; it makes "this observer was invoked" a statement about the run.
\<close>

record 'w run =
  world :: 'w
  console :: "js_error list"
  invocations :: "(nat \<times> change) list"

text \<open>
  A computation either returns or throws, and leaves a run behind. An observer is a
  callback on the world; it may throw after changing part of it. The set of observers is
  a list in registration order, which is the iteration order of a JavaScript \<open>Set\<close>.
  Observers do not subscribe or unsubscribe while they are being notified.
\<close>

type_synonym 'w computation = "'w run \<Rightarrow> (js_error + unit) \<times> 'w run"

type_synonym 'w observer = "change \<Rightarrow> 'w \<Rightarrow> (js_error + unit) \<times> 'w"

text \<open>Statement sequencing: a throw in the first statement skips the second.\<close>

definition andThen :: "'w computation \<Rightarrow> 'w computation \<Rightarrow> 'w computation" where
  "andThen f g r = (case f r of (Inl e, r') \<Rightarrow> (Inl e, r') | (Inr u, r') \<Rightarrow> g r')"

text \<open>\<open>try { body } catch (error) { handler(error) }\<close>.\<close>

definition tryCatch :: "'w computation \<Rightarrow> (js_error \<Rightarrow> 'w computation) \<Rightarrow> 'w computation" where
  "tryCatch body handler r =
     (case body r of (Inl e, r') \<Rightarrow> handler e r' | (Inr u, r') \<Rightarrow> (Inr u, r'))"

definition consoleError :: "js_error \<Rightarrow> 'w computation" where
  "consoleError e r = (Inr (), r\<lparr>console := console r @ [e]\<rparr>)"

text \<open>The call \<open>callback(type, data)\<close> of the observer registered at position \<open>i\<close>.\<close>

definition invoke :: "nat \<Rightarrow> 'w observer \<Rightarrow> change \<Rightarrow> 'w computation" where
  "invoke i callback c r =
     (case callback c (world r) of
        (res, w') \<Rightarrow> (res, r\<lparr>world := w', invocations := invocations r @ [(i, c)]\<rparr>))"

text \<open>
  \<open>DevtoolsState.notify\<close>: \<open>observers.forEach\<close> over the callbacks, each call wrapped in
  \<open>try\<close>/\<open>catch\<close>. An exception that escaped the arrow function would end \<open>forEach\<close>
  and leave \<open>notify\<close>.
\<close>

fun notifyFrom :: "nat \<Rightarrow> 'w observer list \<Rightarrow> change \<Rightarrow> 'w computation" where
  "notifyFrom i [] c r = (Inr (), r)"
| "notifyFrom i (callback # rest) c r =
     (case tryCatch (invoke i callback c) consoleError r of
        (Inl e, r') \<Rightarrow> (Inl e, r')
      | (Inr u, r') \<Rightarrow> notifyFrom (Suc i) rest c r')"

definition notify :: "'w observer list \<Rightarrow> change \<Rightarrow> 'w computation" where
  "notify observers c r = notifyFrom 0 observers c r"

text \<open>Updating the store inside a run.\<close>

definition modify :: "('w \<Rightarrow> 'w) \<Rightarrow> 'w computation" where
  "modify f r = (Inr (), r\<lparr>world := f (world r)\<rparr>)"

text \<open>The state the constructor sets up.\<close>

definition initialState :: "'x \<Rightarrow> 'x devtools_state_scheme" where
  "initialState ext =
     \<lparr>altPressed = False, shiftPressed = False, currentTargetElement = None,
      lastTargetElement = None, currentMousePosition = (0, 0),
      hierarchicalTooltipVisible = False, hierarchicalTooltipTimeout = None,
      hierarchicalTooltipToggled = False, keyboardNavigationActive = False,
      keyboardSelectedElement = None, treeSelectedElement = None,
      treeSelectionActive = False, bodyCursor = [], \<dots> = ext\<rparr>"

definition initialRun :: "'w \<Rightarrow> 'w run" where
  "initialRun w = \<lparr>world = w, console = [], invocations = []\<rparr>"

text \<open>The mutators of \<open>DevtoolsState\<close>, in the order of the source.\<close>

definition reset ::
  "('x devtools_state_scheme) observer list \<Rightarrow> ('x devtools_state_scheme) computation" where
  "reset observers =
     andThen
       (modify (\<lambda>s. s\<lparr>altPressed := False, shiftPressed := False,
          currentTargetElement := None, lastTargetElement := None,
          currentMousePosition := (0, 0), hierarchicalTooltipVisible := False,
          hierarchicalTooltipToggled := False, keyboardNavigationActive := False,
          keyboardSelectedElement := None, treeSelectedElement := None,
          treeSelectionActive := False,
          hierarchicalTooltipTimeout :=
            (case hierarchicalTooltipTimeout s of
               None \<Rightarrow> None
             | Some t \<Rightarrow> if t \<noteq> 0 then None else Some t),
          bodyCursor := []\<rparr>))
       (notify observers Reset)"

definition setKeyboardNavigationActive ::
  "bool \<Rightarrow> ('x devtools_state_scheme) computation" where
  "setKeyboardNavigationActive active =
     modify (\<lambda>s. if \<not> active
                  then s\<lparr>keyboardNavigationActive := active, keyboardSelectedElement := None\<rparr>
                  else s\<lparr>keyboardNavigationActive := active\<rparr>)"

definition setTreeSelectionActive ::
  "('x devtools_state_scheme) observer list \<Rightarrow> bool \<Rightarrow> ('x devtools_state_scheme) computation" where
  "setTreeSelectionActive observers active r =
     (if treeSelectionActive (world r) \<noteq> active
      then andThen (modify (\<lambda>s. s\<lparr>treeSelectionActive := active\<rparr>))
             (notify observers (TreeSelectionActiveChanged active)) r
      else (Inr (), r))"

definition setTreeSelectedElement ::
  "('x devtools_state_scheme) observer list \<Rightarrow> element option \<Rightarrow>
   ('x devtools_state_scheme) computation" where
  "setTreeSelectedElement observers element r =
     (if treeSelectedElement (world r) \<noteq> element
      then andThen (modify (\<lambda>s. s\<lparr>treeSelectedElement := element\<rparr>))
             (notify observers (TreeSelectionChanged element)) r
      else (Inr (), r))"

definition setKeyboardSelectedElement ::
  "('x devtools_state_scheme) observer list \<Rightarrow> element option \<Rightarrow>
   ('x devtools_state_scheme) computation" where
  "setKeyboardSelectedElement observers element r =
     (let previousElement = keyboardSelectedElement (world r)
      in andThen
           (modify (\<lambda>s. if element \<noteq> None
                        then s\<lparr>keyboardSelectedElement := element, keyboardNavigationActive := True\<rparr>
                        else s\<lparr>keyboardSelectedElement := element\<rparr>))
           (\<lambda>r'. if previousElement \<noteq> element
                  then notify observers (KeyboardSelectionChanged element previousElement) r'
                  else (Inr (), r')) r)"

definition updateMousePosition ::
  "('x devtools_state_scheme) observer list \<Rightarrow> real \<Rightarrow> real \<Rightarrow>
   ('x devtools_state_scheme) computation" where
  "updateMousePosition observers clientX clientY =
     andThen (modify (\<lambda>s. s\<lparr>currentMousePosition := (clientX, clientY)\<rparr>))
       (notify observers (MousePositionChanged clientX clientY))"

definition setAltPressed ::
  "('x devtools_state_scheme) observer list \<Rightarrow> bool \<Rightarrow> ('x devtools_state_scheme) computation" where
  "setAltPressed observers pressed r =
     (let wasPressed = altPressed (world r)
      in andThen
           (modify (\<lambda>s. s\<lparr>altPressed := pressed,
                           bodyCursor := (if pressed then ''crosshair'' else [])\<rparr>))
           (\<lambda>r'. if wasPressed \<noteq> pressed
                  then notify observers (AltKeyChanged pressed) r'
                  else (Inr (), r')) r)"

definition setShiftPressed ::
  "('x devtools_state_scheme) observer list \<Rightarrow> bool \<Rightarrow> ('x devtools_state_scheme) computation" where
  "setShiftPressed observers pressed r =
     (let wasPressed = shiftPressed (world r)
      in andThen
           (modify (\<lambda>s. s\<lparr>shiftPressed := pressed\<rparr>))
           (\<lambda>r'. if wasPressed \<noteq> pressed
                  then notify observers (ShiftKeyChanged pressed) r'
                  else (Inr (), r')) r)"

definition setCurrentTargetElement ::
  "('x devtools_state_scheme) observer list \<Rightarrow> element option \<Rightarrow>
   ('x devtools_state_scheme) computation" where
  "setCurrentTargetElement observers element r =
     (let previousElement = currentTargetElement (world r)
      in andThen
           (modify (\<lambda>s. s\<lparr>currentTargetElement := element\<rparr>))
           (\<lambda>r'. if previousElement \<noteq> element
                  then notify observers (TargetElementChanged element previousElement) r'
                  else (Inr (), r')) r)"

definition setHierarchicalTooltipVisible ::
  "('x devtools_state_scheme) observer list \<Rightarrow> bool \<Rightarrow> ('x devtools_state_scheme) computation" where
  "setHierarchicalTooltipVisible observers visible r =
     (let wasVisible = hierarchicalTooltipVisible (world r)
      in andThen
           (modify (\<lambda>s. s\<lparr>hierarchicalTooltipVisible := visible\<rparr>))
           (\<lambda>r'. if wasVisible \<noteq> visible
                  then notify observers (HierarchicalTooltipVisibilityChanged visible) r'
                  else (Inr (), r')) r)"

text \<open>
  The errors a notification round logs: the callbacks run one after the other, each on
  the world the previous one left, and every one that throws contributes its error.
\<close>

fun thrownBy :: "'w observer list \<Rightarrow> change \<Rightarrow> 'w \<Rightarrow> js_error list" where
  "thrownBy [] c w = []"
| "thrownBy (callback # rest) c w =
     (case callback c w of
        (Inl e, w') \<Rightarrow> e # thrownBy rest c w'
      | (Inr u, w') \<Rightarrow> thrownBy rest c w')"


section \<open>OverlayManager: what the overlay highlights\<close>

text \<open>
  The overlay manager: whether its \<open>div\<close> has been created, the \<open>isVisible\<close> flag, the
  element on whose bounding rectangle the \<open>div\<close> was last placed by \<open>show\<close>, and the
  visual state \<open>show\<close> chose for it.
\<close>

record overlay_manager =
  overlayElement :: bool
  isVisible :: bool
  highlighted :: "element option"
  visualState :: string

record sys = devtools_state +
  overlay :: overlay_manager

definition initialOverlay :: overlay_manager where
  "initialOverlay =
     \<lparr>overlayElement = False, isVisible = False, highlighted = None, visualState = ''normal''\<rparr>"

text \<open>\<open>OverlayManager.hide\<close>; the fade-out styling and its timer are not modelled.\<close>

definition hide :: "overlay_manager \<Rightarrow> overlay_manager" where
  "hide ov = (if \<not> overlayElement ov \<or> \<not> isVisible ov then ov else ov\<lparr>isVisible := False\<rparr>)"

text \<open>\<open>OverlayManager.show\<close>, reading the store for the visual state.\<close>

definition show_overlay ::
  "dom_node \<Rightarrow> 'x devtools_state_scheme \<Rightarrow> element option \<Rightarrow> overlay_manager \<Rightarrow> overlay_manager" where
  "show_overlay body s targetElement ov =
     (case targetElement of
        None \<Rightarrow> hide ov
      | Some t \<Rightarrow>
          if \<not> hasAllProperties body t then hide ov
          else ov\<lparr>overlayElement := True,
                  highlighted := Some t,
                  visualState :=
                    (if treeSelectionActive s \<and> treeSelectedElement s = Some t then ''active''
                     else if keyboardNavigationActive s \<and> keyboardSelectedElement s = Some t
                       then ''active''
                     else if currentTargetElement s = Some t then ''hover''
                     else ''normal''),
                  isVisible := True\<rparr>)"

text \<open>\<open>OverlayManager.handleStateChange\<close>.\<close>

definition handleStateChange :: "dom_node \<Rightarrow> change \<Rightarrow> sys \<Rightarrow> sys" where
  "handleStateChange body c w =
     (case c of
        Reset \<Rightarrow> w\<lparr>overlay := hide (overlay w)\<rparr>
      | TargetElementChanged element previousElement \<Rightarrow>
          if element \<noteq> None \<and> (\<not> treeSelectionActive w \<or> treeSelectedElement w = element)
          then w\<lparr>overlay := show_overlay body w element (overlay w)\<rparr>
          else if \<not> treeSelectionActive w then w\<lparr>overlay := hide (overlay w)\<rparr>
          else w
      | TreeSelectionChanged element \<Rightarrow>
          if element \<noteq> None then w\<lparr>overlay := show_overlay body w element (overlay w)\<rparr>
          else w\<lparr>overlay := hide (overlay w)\<rparr>
      | TreeSelectionActiveChanged active \<Rightarrow>
          if \<not> active \<and> currentTargetElement w = None then w\<lparr>overlay := hide (overlay w)\<rparr>
          else w
      | _ \<Rightarrow> w)"

text \<open>The callback the overlay manager subscribes with in its constructor.\<close>

definition overlayObserver :: "dom_node \<Rightarrow> sys observer" where
  "overlayObserver body c w = (Inr (), handleStateChange body c w)"

text \<open>
  \<open>DevtoolsSystem.showOverlayForElement\<close>; a tree-panel click reaches it through
  \<open>selectNode\<close> with \<open>isTreeSelection = true\<close>.
\<close>

definition showOverlayForElement ::
  "dom_node \<Rightarrow> sys observer list \<Rightarrow> element option \<Rightarrow> bool \<Rightarrow> sys computation" where
  "showOverlayForElement body observers element isTreeSelection r =
     (case element of
        None \<Rightarrow> (Inr (), r)
      | Some e \<Rightarrow>
          if \<not> hasSourcePath body e then (Inr (), r)
          else if isTreeSelection
            then andThen (setTreeSelectionActive observers True)
                   (setTreeSelectedElement observers element) r
            else setCurrentTargetElement observers element r)"

text \<open>The overlay is visible and placed on element \<open>e\<close>.\<close>

definition overlayShows :: "sys \<Rightarrow> element \<Rightarrow> bool" where
  "overlayShows w e = (isVisible (overlay w) \<and> highlighted (overlay w) = Some e)"

text \<open>
  A stretch of pointer hovering: \<open>renderDevtoolsOverlay\<close> hands each element found under
  the pointer (or null) to \<open>setCurrentTargetElement\<close>, with the overlay subscribed.
\<close>

fun hoverAll :: "dom_node \<Rightarrow> element option list \<Rightarrow> sys computation" where
  "hoverAll body [] r = (Inr (), r)"
| "hoverAll body (h # hs) r =
     andThen (setCurrentTargetElement [overlayObserver body] h) (hoverAll body hs) r"


section \<open>OverlayManager and TooltipManager: positioning\<close>

text \<open>The \<open>Position\<close> typedef: left, top, width, height in pixels.\<close>

record position =
  pos_left :: real
  pos_top :: real
  pos_width :: real
  pos_height :: real

text \<open>A \<open>DOMRect\<close> as \<open>getBoundingClientRect\<close> returns it, and the \<open>OverlayRect\<close> typedef.\<close>

record dom_rect =
  rect_left :: real
  rect_top :: real
  rect_right :: real
  rect_bottom :: real
  rect_width :: real
  rect_height :: real

record tooltip_position =
  tip_left :: real
  tip_top :: real

text \<open>
  \<open>OverlayManager.calculatePosition\<close>. \<open>cssOffset\<close> is what \<open>parseInt\<close> reads from the
  \<open>element-offset\<close> custom property; \<open>viewportWidth\<close> and \<open>viewportHeight\<close> are
  \<open>window.innerWidth\<close> and \<open>window.innerHeight\<close>.
\<close>

definition calculatePosition :: "int option \<Rightarrow> real \<Rightarrow> real \<Rightarrow> dom_rect \<Rightarrow> position" where
  "calculatePosition cssOffset viewportWidth viewportHeight targetRect =
     (let offset = real_of_int (parseIntOr cssOffset 6);
          left0 = rect_left targetRect - offset;
          top0 = rect_top targetRect - offset;
          width = rect_width targetRect + offset * 2;
          height = rect_height targetRect + offset * 2;
          adjustedLeft = max 0 (min left0 (viewportWidth - width));
          adjustedTop = max 0 (min top0 (viewportHeight - height));
          adjustedWidth = min width (viewportWidth - adjustedLeft);
          adjustedHeight = min height (viewportHeight - adjustedTop)
      in \<lparr>pos_left = adjustedLeft, pos_top = adjustedTop,
          pos_width = adjustedWidth, pos_height = adjustedHeight\<rparr>)"

text \<open>\<open>TooltipManager.isPositionWithinViewport\<close>.\<close>

definition isPositionWithinViewport ::
  "real \<Rightarrow> real \<Rightarrow> tooltip_position \<Rightarrow> real \<Rightarrow> real \<Rightarrow> real \<Rightarrow> bool" where
  "isPositionWithinViewport viewportWidth viewportHeight p width height margin =
     (tip_left p \<ge> margin \<and> tip_top p \<ge> margin \<and>
      tip_left p + width \<le> viewportWidth - margin \<and>
      tip_top p + height \<le> viewportHeight - margin)"

text \<open>The \<open>for (const position of strategies)\<close> loop: the first strategy that fits.\<close>

fun firstFitting ::
  "real \<Rightarrow> real \<Rightarrow> real \<Rightarrow> real \<Rightarrow> real \<Rightarrow> tooltip_position list \<Rightarrow> tooltip_position option" where
  "firstFitting vw vh w h m [] = None"
| "firstFitting vw vh w h m (p # ps) =
     (if isPositionWithinViewport vw vh p w h m then Some p else firstFitting vw vh w h m ps)"

text \<open>
  \<open>TooltipManager.calculateTooltipPosition\<close>. \<open>cssMargin\<close> is what \<open>parseInt\<close> reads from
  the \<open>tooltip-margin\<close> custom property.
\<close>

definition calculateTooltipPosition ::
  "int option \<Rightarrow> real \<Rightarrow> real \<Rightarrow> dom_rect \<Rightarrow> real \<Rightarrow> real \<Rightarrow> tooltip_position" where
  "calculateTooltipPosition cssMargin viewportWidth viewportHeight overlayRect tooltipWidth tooltipHeight =
     (let margin = real_of_int (parseIntOr cssMargin 10);
          strategies =
            [\<lparr>tip_left = rect_left overlayRect + rect_width overlayRect / 2 - tooltipWidth / 2,
              tip_top = rect_bottom overlayRect + margin\<rparr>,
             \<lparr>tip_left = rect_left overlayRect + rect_width overlayRect / 2 - tooltipWidth / 2,
              tip_top = rect_top overlayRect - tooltipHeight - margin\<rparr>,
             \<lparr>tip_left = rect_right overlayRect + margin,
              tip_top = rect_top overlayRect + rect_height overlayRect / 2 - tooltipHeight / 2\<rparr>,
             \<lparr>tip_left = rect_left overlayRect - tooltipWidth - margin,
              tip_top = rect_top overlayRect + rect_height overlayRect / 2 - tooltipHeight / 2\<rparr>]
      in case firstFitting viewportWidth viewportHeight tooltipWidth tooltipHeight margin strategies of
           Some p \<Rightarrow> p
         | None \<Rightarrow>
             \<lparr>tip_left = max margin (min
                 (rect_left overlayRect + rect_width overlayRect / 2 - tooltipWidth / 2)
                 (viewportWidth - tooltipWidth - margin)),
              tip_top = max margin (min
                 (rect_bottom overlayRect + margin)
                 (viewportHeight - tooltipHeight - margin))\<rparr>)"

text \<open>
  The overlay rectangle \<open>TooltipManager.positionMainTooltip\<close> builds from the target's
  rectangle before it calls \<open>calculateTooltipPosition\<close>.
\<close>

definition overlayRectOf :: "int option \<Rightarrow> dom_rect \<Rightarrow> dom_rect" where
  "overlayRectOf cssOffset targetRect =
     (let offset = real_of_int (parseIntOr cssOffset 6)
      in \<lparr>rect_left = rect_left targetRect - offset,
          rect_top = rect_top targetRect - offset,
          rect_right = rect_right targetRect + offset,
          rect_bottom = rect_bottom targetRect + offset,
          rect_width = rect_width targetRect + offset * 2,
          rect_height = rect_height targetRect + offset * 2\<rparr>)"

text \<open>
  A rectangle given by its corner and size lies within the viewport: the four
  inequalities of the positioning property.
\<close>

definition withinViewport :: "real \<Rightarrow> real \<Rightarrow> real \<Rightarrow> real \<Rightarrow> real \<Rightarrow> real \<Rightarrow> bool" where
  "withinViewport viewportWidth viewportHeight l t w h =
     (0 \<le> l \<and> 0 \<le> t \<and> l + w \<le> viewportWidth \<and> t + h \<le> viewportHeight)"


section \<open>TreeWalker and document order\<close>

text \<open>What an \<open>acceptNode\<close> filter returns.\<close>

datatype filter_result = FILTER_ACCEPT | FILTER_REJECT | FILTER_SKIP

text \<open>
  The elements that successive \<open>walker.nextNode()\<close> calls return for a walker created
  with \<open>NodeFilter.SHOW_ELEMENT\<close>: the descendants of the root in document order,
  where a rejected element is left out together with its subtree, a skipped element is
  left out but its subtree is visited, and an accepted element is returned before its
  subtree is visited. \<open>walkNode\<close> visits the element \<open>e\<close> with subtree \<open>n\<close>;
  \<open>walkChildren\<close> visits the children of \<open>p\<close> from index \<open>i\<close> on.
\<close>

fun walkNode :: "(element \<Rightarrow> filter_result) \<Rightarrow> element \<Rightarrow> dom_node \<Rightarrow> element list"
  and walkChildren ::
    "(element \<Rightarrow> filter_result) \<Rightarrow> element \<Rightarrow> nat \<Rightarrow> dom_node list \<Rightarrow> element list" where
  "walkNode acceptNode e (DomNode props cs) =
     (case acceptNode e of
        FILTER_REJECT \<Rightarrow> []
      | FILTER_ACCEPT \<Rightarrow> e # walkChildren acceptNode e 0 cs
      | FILTER_SKIP \<Rightarrow> walkChildren acceptNode e 0 cs)"
| "walkChildren acceptNode p i [] = []"
| "walkChildren acceptNode p i (c # cs) =
     walkNode acceptNode (i # p) c @ walkChildren acceptNode p (Suc i) cs"

text \<open>\<open>document.createTreeWalker(root, SHOW_ELEMENT, {acceptNode})\<close>, run to its end.\<close>

definition treeWalkerNodes ::
  "dom_node \<Rightarrow> element \<Rightarrow> (element \<Rightarrow> filter_result) \<Rightarrow> element list" where
  "treeWalkerNodes body rootElement acceptNode =
     (case nodeAt body rootElement of
        None \<Rightarrow> []
      | Some n \<Rightarrow> walkChildren acceptNode rootElement 0 (childElements n))"

text \<open>
  Document order on elements: ancestors come before descendants, and earlier siblings
  (with their subtrees) before later ones. \<open>pathBefore\<close> compares the index chains read
  from \<open>document.body\<close> downwards.
\<close>

fun pathBefore :: "nat list \<Rightarrow> nat list \<Rightarrow> bool" where
  "pathBefore [] [] = False"
| "pathBefore [] (j # q) = True"
| "pathBefore (i # p) [] = False"
| "pathBefore (i # p) (j # q) = (i < j \<or> (i = j \<and> pathBefore p q))"

definition precedes :: "element \<Rightarrow> element \<Rightarrow> bool" where
  "precedes a b = pathBefore (rev a) (rev b)"

text \<open>\<open>x\<close> is a proper ancestor of \<open>y\<close>.\<close>

definition isAncestor :: "element \<Rightarrow> element \<Rightarrow> bool" where
  "isAncestor x y = (length x < length y \<and> drop (length y - length x) y = x)"

text \<open>
  \<open>a.compareDocumentPosition(b)\<close> for two elements of the tree, as the DOM standard
  defines it: 0 for the same element; \<open>CONTAINS | PRECEDING\<close> (8 + 2) when \<open>b\<close> is an
  ancestor of \<open>a\<close>; \<open>CONTAINED_BY | FOLLOWING\<close> (16 + 4) when \<open>b\<close> is a descendant of
  \<open>a\<close>; otherwise \<open>PRECEDING\<close> (2) or \<open>FOLLOWING\<close> (4).
\<close>

definition DOCUMENT_POSITION_PRECEDING :: nat where
  "DOCUMENT_POSITION_PRECEDING = 2"

definition DOCUMENT_POSITION_FOLLOWING :: nat where
  "DOCUMENT_POSITION_FOLLOWING = 4"

definition compareDocumentPosition :: "element \<Rightarrow> element \<Rightarrow> nat" where
  "compareDocumentPosition a b =
     (if a = b then 0
      else if isAncestor b a then 8 + 2
      else if isAncestor a b then 16 + 4
      else if precedes b a then 2
      else 4)"

text \<open>
  \<open>Array.prototype.sort\<close> with a comparator. The standard asks for a stable sort; for a
  comparator that is a consistent order every stable sort returns the same array, here
  the one insertion from the right builds.
\<close>

fun insertSorted :: "('a \<Rightarrow> 'a \<Rightarrow> int) \<Rightarrow> 'a \<Rightarrow> 'a list \<Rightarrow> 'a list" where
  "insertSorted cmp x [] = [x]"
| "insertSorted cmp x (y # ys) =
     (if cmp x y \<le> 0 then x # y # ys else y # insertSorted cmp x ys)"

definition arraySort :: "('a \<Rightarrow> 'a \<Rightarrow> int) \<Rightarrow> 'a list \<Rightarrow> 'a list" where
  "arraySort cmp xs = foldr (insertSorted cmp) xs []"


section \<open>KeyboardNavigator: finding components\<close>

text \<open>
  The loop of \<open>findParentComponent\<close>, from the value of its variable \<open>element\<close>: it ends
  with null at \<open>document.body\<close>.
\<close>

fun findParentLoop :: "dom_node \<Rightarrow> element \<Rightarrow> element option" where
  "findParentLoop body [] = None"
| "findParentLoop body (i # p) =
     (if hasSourcePath body (i # p) then Some (i # p) else findParentLoop body p)"

definition findParentComponent :: "dom_node \<Rightarrow> element \<Rightarrow> element option" where
  "findParentComponent body currentElement =
     (case parentElement currentElement of
        None \<Rightarrow> None
      | Some e \<Rightarrow> findParentLoop body e)"

text \<open>
  The inner loop of \<open>findChildComponents\<close>, from the value of its variable \<open>ancestor\<close>:
  true when the walk up reaches \<open>currentElement\<close> (or leaves the tree) before it meets
  an element with a source path.
\<close>

fun isDirectChildLoop :: "dom_node \<Rightarrow> element \<Rightarrow> element \<Rightarrow> bool" where
  "isDirectChildLoop body currentElement [] =
     (if [] = currentElement then True else \<not> hasSourcePath body [])"
| "isDirectChildLoop body currentElement (i # p) =
     (if i # p = currentElement then True
      else if hasSourcePath body (i # p) then False
      else isDirectChildLoop body currentElement p)"

definition isDirectChild :: "dom_node \<Rightarrow> element \<Rightarrow> element \<Rightarrow> bool" where
  "isDirectChild body currentElement elementNode =
     (case parentElement elementNode of
        None \<Rightarrow> True
      | Some ancestor \<Rightarrow> isDirectChildLoop body currentElement ancestor)"

definition findChildComponents :: "dom_node \<Rightarrow> element \<Rightarrow> element list" where
  "findChildComponents body currentElement =
     filter (isDirectChild body currentElement)
       (treeWalkerNodes body currentElement
          (\<lambda>node. if node = currentElement then FILTER_SKIP
                   else if hasSourcePath body node then FILTER_ACCEPT
                   else FILTER_SKIP))"

text \<open>
  \<open>findTopLevelComponents\<close>. The loop inside its filter is the loop of
  \<open>findParentComponent\<close>, used as a test.
\<close>

definition findTopLevelComponents :: "dom_node \<Rightarrow> element list" where
  "findTopLevelComponents body =
     treeWalkerNodes body []
       (\<lambda>node. if hasSourcePath body node
                then (if findParentComponent body node \<noteq> None then FILTER_REJECT
                      else FILTER_ACCEPT)
                else FILTER_SKIP)"

definition getAllSiblingsIncludingCurrent :: "dom_node \<Rightarrow> element \<Rightarrow> element list" where
  "getAllSiblingsIncludingCurrent body currentElement =
     (case findParentComponent body currentElement of
        None \<Rightarrow> findTopLevelComponents body
      | Some p \<Rightarrow> findChildComponents body p)"

text \<open>The number of elements in a subtree.\<close>

fun nodeCount :: "dom_node \<Rightarrow> nat" where
  "nodeCount (DomNode props cs) = Suc (sum_list (map nodeCount cs))"

definition subtreeCount :: "dom_node \<Rightarrow> element \<Rightarrow> nat" where
  "subtreeCount body e = (case nodeAt body e of None \<Rightarrow> 0 | Some n \<Rightarrow> nodeCount n)"

text \<open>
  \<open>traverseDepthFirst\<close>, the recursive arrow function inside \<open>getAllComponentsInOrder\<close>
  (the array it pushes to is its result). Every recursive call is on an element of a
  smaller subtree, measured by \<open>subtreeCount\<close>; the termination proof is the first of
  the properties below.
\<close>

function traverseDepthFirst :: "dom_node \<Rightarrow> element \<Rightarrow> element list" where
  "traverseDepthFirst body e =
     (if hasSourcePath body e then [e] else [])
     @ concat (map (traverseDepthFirst body) (findChildComponents body e))"
  by pat_completeness auto

definition getAllComponentsInOrder :: "dom_node \<Rightarrow> element list" where
  "getAllComponentsInOrder body =
     concat (map (traverseDepthFirst body) (findTopLevelComponents body))"

definition findDeepestComponent :: "dom_node \<Rightarrow> element option" where
  "findDeepestComponent body =
     (let allComponents = getAllComponentsInOrder body
      in if length allComponents > 0
         then arrayAt allComponents (int (length allComponents) - 1) else None)"

definition findFirstComponent :: "dom_node \<Rightarrow> element option" where
  "findFirstComponent body =
     (let allComponents = getAllComponentsInOrder body
      in if length allComponents > 0 then arrayAt allComponents 0 else None)"


text \<open>
  Two filters used to state what the walks return: \<open>tagAccept\<close> accepts exactly the
  elements with a source path and rejects nothing; \<open>topAccept\<close> is the filter of
  \<open>findTopLevelComponents\<close>.
\<close>

definition tagAccept :: "dom_node \<Rightarrow> element \<Rightarrow> filter_result" where
  "tagAccept body x = (if hasSourcePath body x then FILTER_ACCEPT else FILTER_SKIP)"

definition topAccept :: "dom_node \<Rightarrow> element \<Rightarrow> filter_result" where
  "topAccept body node =
     (if hasSourcePath body node
      then (if findParentComponent body node \<noteq> None then FILTER_REJECT else FILTER_ACCEPT)
      else FILTER_SKIP)"


section \<open>KeyboardNavigator: sibling selection\<close>

text \<open>\<open>KeyboardNavigator.getNextSibling\<close> and \<open>getPreviousSibling\<close>.\<close>

definition getNextSibling :: "'e \<Rightarrow> 'e list \<Rightarrow> 'e option" where
  "getNextSibling currentElement siblings =
     (if length siblings = 0 then None
      else let currentIndex = indexOf siblings currentElement
           in if currentIndex = - 1 then arrayAt siblings 0
              else arrayAt siblings (js_rem (currentIndex + 1) (int (length siblings))))"

definition getPreviousSibling :: "'e \<Rightarrow> 'e list \<Rightarrow> 'e option" where
  "getPreviousSibling currentElement siblings =
     (if length siblings = 0 then None
      else let currentIndex = indexOf siblings currentElement
           in if currentIndex = - 1 then arrayAt siblings (int (length siblings) - 1)
              else arrayAt siblings
                     (js_rem (currentIndex - 1 + int (length siblings)) (int (length siblings))))"


text \<open>
  The four moves of \<open>KeyboardNavigator\<close>; each returns null for a null current element.
\<close>

definition navigateToParent :: "dom_node \<Rightarrow> element option \<Rightarrow> element option" where
  "navigateToParent body currentElement =
     (case currentElement of
        None \<Rightarrow> None
      | Some cur \<Rightarrow>
          (case findParentComponent body cur of
             Some p \<Rightarrow> Some p
           | None \<Rightarrow> findDeepestComponent body))"

definition navigateToFirstChild :: "dom_node \<Rightarrow> element option \<Rightarrow> element option" where
  "navigateToFirstChild body currentElement =
     (case currentElement of
        None \<Rightarrow> None
      | Some cur \<Rightarrow>
          (let cs = findChildComponents body cur
           in if length cs > 0 then arrayAt cs 0 else findFirstComponent body))"

definition navigateToNextSibling :: "dom_node \<Rightarrow> element option \<Rightarrow> element option" where
  "navigateToNextSibling body currentElement =
     (case currentElement of
        None \<Rightarrow> None
      | Some cur \<Rightarrow> getNextSibling cur (getAllSiblingsIncludingCurrent body cur))"

definition navigateToPreviousSibling :: "dom_node \<Rightarrow> element option \<Rightarrow> element option" where
  "navigateToPreviousSibling body currentElement =
     (case currentElement of
        None \<Rightarrow> None
      | Some cur \<Rightarrow> getPreviousSibling cur (getAllSiblingsIncludingCurrent body cur))"


section \<open>DevtoolsSystem: component discovery\<close>

text \<open>
  The object the first \<open>map\<close> of \<open>getAllComponents\<close> builds for an element, and the
  \<open>ComponentInfo\<close> it returns.
\<close>

record raw_info =
  raw_element :: element
  raw_filename :: "string option"
  raw_line :: "string option"
  raw_path :: "string option"

record component_info =
  info_element :: element
  info_filename :: string
  info_line :: string
  info_path :: string

text \<open>
  The type cast of the last \<open>map\<close>, which changes no value; the filter before it lets
  no \<open>undefined\<close> through.
\<close>

fun castString :: "string option \<Rightarrow> string" where
  "castString None = []"
| "castString (Some str) = str"

definition getAllComponents :: "dom_node \<Rightarrow> component_info list" where
  "getAllComponents body =
     map (\<lambda>info. \<lparr>info_element = raw_element info,
                    info_filename = castString (raw_filename info),
                    info_line = castString (raw_line info),
                    info_path = castString (raw_path info)\<rparr>)
       (filter (\<lambda>info. truthy (raw_filename info) \<and> truthy (raw_line info) \<and> truthy (raw_path info))
          (map (\<lambda>e. \<lparr>raw_element = e,
                       raw_filename = getFilename body e,
                       raw_line = getSourceLine body e,
                       raw_path = getSourcePath body e\<rparr>)
             (getAllComponentsInOrder body)))"


section \<open>ComponentTreeView: the hierarchy\<close>

text \<open>Decimal digits of an index, for the node ids \<open>node-0\<close>, \<open>node-1\<close>, ...\<close>

fun showNat :: "nat \<Rightarrow> string" where
  "showNat n =
     (if n < 10 then [''0123456789'' ! n]
      else showNat (n div 10) @ [''0123456789'' ! (n mod 10)])"

declare showNat.simps [simp del]

text \<open>
  A \<open>TreeNode\<close>. Node objects are shared and mutated, so they live in a store: the
  list \<open>nodes\<close>, where the position of a node is its address. A \<open>children\<close> array, a
  \<open>parent\<close> link, the root array and the values of \<open>nodeMap\<close> hold addresses.
\<close>

record tree_node =
  nodeId :: string
  element :: element
  filename :: string
  line :: string
  path :: string
  children :: "nat list"
  parent :: "nat option"
  expanded :: bool
  level :: nat

record hierarchy =
  nodes :: "tree_node list"
  nodeMap :: "element \<rightharpoonup> nat"
  rootNodes :: "nat list"

definition updateNode :: "nat \<Rightarrow> (tree_node \<Rightarrow> tree_node) \<Rightarrow> hierarchy \<Rightarrow> hierarchy" where
  "updateNode a f h = h\<lparr>nodes := (nodes h)[a := f (nodes h ! a)]\<rparr>"

text \<open>The first \<open>forEach\<close> of \<open>buildHierarchy\<close>: one new node per component.\<close>

fun createNodes :: "component_info list \<Rightarrow> nat \<Rightarrow> hierarchy \<Rightarrow> hierarchy" where
  "createNodes [] index h = h"
| "createNodes (cinfo # rest) index h =
     createNodes rest (Suc index)
       (h\<lparr>nodes := nodes h @
              [\<lparr>nodeId = ''node-'' @ showNat index,
                element = info_element cinfo,
                filename = info_filename cinfo,
                line = info_line cinfo,
                path = info_path cinfo,
                children = [],
                parent = None,
                expanded = False,
                level = 0\<rparr>],
          nodeMap := (nodeMap h)(info_element cinfo \<mapsto> length (nodes h))\<rparr>)"

text \<open>
  The body of the second \<open>forEach\<close>. \<open>nodeMap.get\<close> of an element that has no node
  gives \<open>undefined\<close>, and the property write that follows throws a TypeError.
\<close>

definition linkNode :: "dom_node \<Rightarrow> component_info \<Rightarrow> hierarchy \<Rightarrow> js_error + hierarchy" where
  "linkNode body cinfo h =
     (case nodeMap h (info_element cinfo) of
        None \<Rightarrow> Inl (JsError ''TypeError'')
      | Some node \<Rightarrow>
          (case findParentComponent body (info_element cinfo) of
             None \<Rightarrow> Inr (h\<lparr>rootNodes := rootNodes h @ [node]\<rparr>)
           | Some parentEl \<Rightarrow>
               (case nodeMap h parentEl of
                  None \<Rightarrow> Inr (h\<lparr>rootNodes := rootNodes h @ [node]\<rparr>)
                | Some parentNode \<Rightarrow>
                    (let h1 = updateNode node (\<lambda>n. n\<lparr>parent := Some parentNode\<rparr>) h;
                         h2 = updateNode node
                                (\<lambda>n. n\<lparr>level := level (nodes h1 ! parentNode) + 1\<rparr>) h1;
                         h3 = updateNode parentNode
                                (\<lambda>n. n\<lparr>children := children n @ [node]\<rparr>) h2
                     in Inr h3))))"

fun linkNodes :: "dom_node \<Rightarrow> component_info list \<Rightarrow> hierarchy \<Rightarrow> js_error + hierarchy" where
  "linkNodes body [] h = Inr h"
| "linkNodes body (cinfo # rest) h =
     (case linkNode body cinfo h of
        Inl e \<Rightarrow> Inl e
      | Inr h' \<Rightarrow> linkNodes body rest h')"

text \<open>The comparator of \<open>sortNodesByDOMOrder\<close>, on two node addresses.\<close>

definition compareNodes :: "hierarchy \<Rightarrow> nat \<Rightarrow> nat \<Rightarrow> int" where
  "compareNodes h a b =
     (let position = compareDocumentPosition (element (nodes h ! a)) (element (nodes h ! b))
      in if position AND DOCUMENT_POSITION_FOLLOWING \<noteq> 0 then - 1
         else if position AND DOCUMENT_POSITION_PRECEDING \<noteq> 0 then 1
         else 0)"

text \<open>
  The array \<open>sortNodesByDOMOrder\<close> is called on: the root array, or the \<open>children\<close>
  array of a node. It is sorted in place.
\<close>

datatype array_ref = RootNodes | ChildrenOf nat

fun readArray :: "hierarchy \<Rightarrow> array_ref \<Rightarrow> nat list" where
  "readArray h RootNodes = rootNodes h"
| "readArray h (ChildrenOf a) = children (nodes h ! a)"

fun writeArray :: "array_ref \<Rightarrow> nat list \<Rightarrow> hierarchy \<Rightarrow> hierarchy" where
  "writeArray RootNodes arr h = h\<lparr>rootNodes := arr\<rparr>"
| "writeArray (ChildrenOf a) arr h = updateNode a (\<lambda>n. n\<lparr>children := arr\<rparr>) h"

fun forEachOpt :: "('a \<Rightarrow> 's \<Rightarrow> 's option) \<Rightarrow> 'a list \<Rightarrow> 's \<Rightarrow> 's option" where
  "forEachOpt f [] st = Some st"
| "forEachOpt f (x # xs) st =
     (case f x st of None \<Rightarrow> None | Some st' \<Rightarrow> forEachOpt f xs st')"

text \<open>
  \<open>sortNodesByDOMOrder\<close>. The recursion follows \<open>children\<close> links and ends only if they
  do not loop; the first argument bounds its depth, and \<open>None\<close> stands for a recursion
  that went deeper.
\<close>

fun sortNodesByDOMOrder :: "nat \<Rightarrow> array_ref \<Rightarrow> hierarchy \<Rightarrow> hierarchy option" where
  "sortNodesByDOMOrder 0 arr h = None"
| "sortNodesByDOMOrder (Suc fuel) arr h =
     (let sorted = arraySort (compareNodes h) (readArray h arr);
          h1 = writeArray arr sorted h
      in forEachOpt
           (\<lambda>node h'. if length (children (nodes h' ! node)) > 0
                       then sortNodesByDOMOrder fuel (ChildrenOf node) h'
                       else Some h')
           sorted h1)"

text \<open>
  \<open>buildHierarchy\<close>. Its result is the root array together with the nodes reachable
  from it. The depth allowed to the sort is one more than the number of components,
  which no forest of that many nodes exceeds.
\<close>

definition buildHierarchy :: "dom_node \<Rightarrow> component_info list \<Rightarrow> js_error + hierarchy" where
  "buildHierarchy body components =
     (let h0 = createNodes components 0 \<lparr>nodes = [], nodeMap = Map.empty, rootNodes = []\<rparr>
      in case linkNodes body components h0 of
           Inl e \<Rightarrow> Inl e
         | Inr h1 \<Rightarrow>
             (case sortNodesByDOMOrder (Suc (length components)) RootNodes h1 of
                None \<Rightarrow> Inl (JsError ''RangeError'')
              | Some h2 \<Rightarrow> Inr h2))"

text \<open>
  The fields of \<open>ComponentTreeView\<close> that building, expanding and selecting touch.
\<close>

record component_tree_view =
  treeData :: "hierarchy option"
  expandedNodes :: "string set"
  selectedNodeId :: "string option"
  lastComponentsHash :: "string option"
  renderCache :: "string \<rightharpoonup> string"

definition initialView :: component_tree_view where
  "initialView =
     \<lparr>treeData = None, expandedNodes = {}, selectedNodeId = None,
      lastComponentsHash = None, renderCache = Map.empty\<rparr>"

text \<open>\<open>Array.prototype.join\<close>.\<close>

fun joinWith :: "string \<Rightarrow> string list \<Rightarrow> string" where
  "joinWith sep [] = []"
| "joinWith sep [x] = x"
| "joinWith sep (x # y # ys) = x @ sep @ joinWith sep (y # ys)"

definition generateComponentsHash :: "component_info list \<Rightarrow> string" where
  "generateComponentsHash components =
     joinWith ''|''
       (map (\<lambda>cinfo. info_filename cinfo @ '':'' @ info_line cinfo @ '':'' @ info_path cinfo)
          components)"

text \<open>
  \<open>buildTreeData\<close>. An exception from \<open>buildHierarchy\<close> leaves the new hash stored and
  the old tree data in place.
\<close>

definition buildTreeData ::
  "dom_node \<Rightarrow> component_tree_view \<Rightarrow> (js_error + unit) \<times> component_tree_view" where
  "buildTreeData body v =
     (let components = getAllComponents body;
          currentHash = generateComponentsHash components
      in if lastComponentsHash v = Some currentHash \<and> treeData v \<noteq> None then (Inr (), v)
         else (case buildHierarchy body components of
                 Inl e \<Rightarrow> (Inl e, v\<lparr>lastComponentsHash := Some currentHash\<rparr>)
               | Inr h \<Rightarrow>
                   (Inr (), v\<lparr>lastComponentsHash := Some currentHash,
                              treeData := Some h,
                              renderCache := Map.empty\<rparr>)))"

text \<open>
  \<open>toggleNodeExpansion\<close> on the node at address \<open>a\<close> (the animation is not modelled), and
  the selection bookkeeping of \<open>selectNode\<close>.
\<close>

definition toggleNodeExpansion :: "nat \<Rightarrow> component_tree_view \<Rightarrow> component_tree_view" where
  "toggleNodeExpansion a v =
     (case treeData v of
        None \<Rightarrow> v
      | Some h \<Rightarrow>
          if length (children (nodes h ! a)) = 0 then v
          else
            let h' = updateNode a (\<lambda>n. n\<lparr>expanded := \<not> expanded n\<rparr>) h
            in v\<lparr>treeData := Some h',
                 expandedNodes :=
                   (if expanded (nodes h' ! a)
                    then insert (nodeId (nodes h' ! a)) (expandedNodes v)
                    else expandedNodes v - {nodeId (nodes h' ! a)})\<rparr>)"

definition selectNode :: "nat \<Rightarrow> component_tree_view \<Rightarrow> component_tree_view" where
  "selectNode a v =
     (case treeData v of
        None \<Rightarrow> v
      | Some h \<Rightarrow> v\<lparr>selectedNodeId := Some (nodeId (nodes h ! a))\<rparr>)"


section \<open>What the hierarchy builder should produce\<close>

text \<open>
  The nearest inspectable ancestor of an element, in the words of the specification: the
  first proper ancestor, walking up, that has all three properties.
\<close>

fun nearestInspectableFrom :: "dom_node \<Rightarrow> element \<Rightarrow> element option" where
  "nearestInspectableFrom body [] = (if hasAllProperties body [] then Some [] else None)"
| "nearestInspectableFrom body (i # p) =
     (if hasAllProperties body (i # p) then Some (i # p) else nearestInspectableFrom body p)"

definition nearestInspectableAncestor :: "dom_node \<Rightarrow> element \<Rightarrow> element option" where
  "nearestInspectableAncestor body e =
     (case parentElement e of None \<Rightarrow> None | Some p \<Rightarrow> nearestInspectableFrom body p)"

text \<open>
  The proper ancestors of an element below \<open>document.body\<close>, nearest first, and the
  nearest of them that carries a source path.
\<close>

fun ancestorsBelowBody :: "element \<Rightarrow> element list" where
  "ancestorsBelowBody [] = []"
| "ancestorsBelowBody (i # p) = (if p = [] then [] else p # ancestorsBelowBody p)"

definition nearestSourcePathAncestor :: "dom_node \<Rightarrow> element \<Rightarrow> element option" where
  "nearestSourcePathAncestor body e = find (hasSourcePath body) (ancestorsBelowBody e)"

text \<open>An array of node addresses lists its nodes' elements in document order.\<close>

definition inDocumentOrder :: "hierarchy \<Rightarrow> nat list \<Rightarrow> bool" where
  "inDocumentOrder h arr =
     sorted_wrt (\<lambda>a b. precedes (element (nodes h ! a)) (element (nodes h ! b))) arr"

text \<open>
  The node at address \<open>a\<close> is well placed. Without a parent it is a root at level 0,
  and its element has no ancestor below \<open>document.body\<close> that carries a source path, or
  the nearest such ancestor is not the element of any node. With a parent, the parent
  is the node of the nearest inspectable ancestor of its element, it is listed among
  the parent's children and not among the roots, and its level is the parent's plus
  one if the parent comes before it in the list. Each of its children names it as
  parent, and its children are in document order (so none is listed twice).
\<close>

definition nodeOK :: "dom_node \<Rightarrow> hierarchy \<Rightarrow> nat \<Rightarrow> bool" where
  "nodeOK body h a =
     ((case parent (nodes h ! a) of
         None \<Rightarrow>
           level (nodes h ! a) = 0 \<and> a \<in> set (rootNodes h)
           \<and> (case nearestSourcePathAncestor body (element (nodes h ! a)) of
                 None \<Rightarrow> True
               | Some pe \<Rightarrow> pe \<notin> set (map element (nodes h)))
       | Some p \<Rightarrow>
           p < length (nodes h) \<and> a \<notin> set (rootNodes h) \<and> a \<in> set (children (nodes h ! p))
           \<and> nearestInspectableAncestor body (element (nodes h ! a))
               = Some (element (nodes h ! p))
           \<and> (p < a \<longrightarrow> level (nodes h ! a) = level (nodes h ! p) + 1))
      \<and> (\<forall>c \<in> set (children (nodes h ! a)).
            c < length (nodes h) \<and> parent (nodes h ! c) = Some a)
      \<and> inDocumentOrder h (children (nodes h ! a)))"

text \<open>
  The hierarchy is a forest: every node is well placed, the root array holds nodes
  without parent, and it is in document order.
\<close>

definition forestOK :: "dom_node \<Rightarrow> hierarchy \<Rightarrow> bool" where
  "forestOK body h =
     ((\<forall>a < length (nodes h). nodeOK body h a)
      \<and> (\<forall>r \<in> set (rootNodes h). r < length (nodes h) \<and> parent (nodes h ! r) = None)
      \<and> inDocumentOrder h (rootNodes h))"

text \<open>Every node with a parent is one level below it.\<close>

definition levelsOK :: "hierarchy \<Rightarrow> bool" where
  "levelsOK h =
     (\<forall>a < length (nodes h).
        case parent (nodes h ! a) of
          None \<Rightarrow> level (nodes h ! a) = 0
        | Some p \<Rightarrow> level (nodes h ! a) = level (nodes h ! p) + 1)"


text \<open>
  The state of the linking loop of \<open>buildHierarchy\<close> after the first \<open>k\<close> components
  \<open>es\<close> have been processed, with \<open>M\<close> the node map: \<open>parentAddr\<close> is the node the
  loop attaches an element to, if any; the processed nodes carry their parent and the
  level read from it at that moment (0 from a parent that is processed later), the
  others are still as created, and every \<open>children\<close> array and the root array hold the
  processed nodes that belong there, in processing order.
\<close>

definition parentAddr :: "dom_node \<Rightarrow> (element \<rightharpoonup> nat) \<Rightarrow> element \<Rightarrow> nat option" where
  "parentAddr body M e = (case findParentComponent body e of None \<Rightarrow> None | Some pe \<Rightarrow> M pe)"

definition linkedUpTo ::
  "dom_node \<Rightarrow> element list \<Rightarrow> (element \<rightharpoonup> nat) \<Rightarrow> nat \<Rightarrow> hierarchy \<Rightarrow> bool" where
  "linkedUpTo body es M k h =
     (length (nodes h) = length es \<and> nodeMap h = M
      \<and> rootNodes h = filter (\<lambda>c. parentAddr body M (es ! c) = None) [0 ..< k]
      \<and> (\<forall>a < length es.
            element (nodes h ! a) = es ! a
            \<and> children (nodes h ! a) = filter (\<lambda>c. parentAddr body M (es ! c) = Some a) [0 ..< k]
            \<and> parent (nodes h ! a) = (if a < k then parentAddr body M (es ! a) else None)
            \<and> level (nodes h ! a) =
                (if a < k
                 then (case parentAddr body M (es ! a) of
                         None \<Rightarrow> 0
                       | Some p \<Rightarrow> (if p < a then level (nodes h ! p) else 0) + 1)
                 else 0)))"

text \<open>
  The nodes a call of \<open>sortNodesByDOMOrder\<close> on the nodes \<open>S\<close> reaches: the nodes of
  \<open>S\<close> and, following the parent function \<open>P\<close> backwards, all nodes below them.
\<close>

inductive_set below :: "nat \<Rightarrow> (nat \<Rightarrow> nat option) \<Rightarrow> nat set \<Rightarrow> nat set"
  for n :: nat and P :: "nat \<Rightarrow> nat option" and S :: "nat set" where
  here: "a \<in> S \<Longrightarrow> a \<in> below n P S"
| under: "q \<in> below n P S \<Longrightarrow> a < n \<Longrightarrow> P a = Some q \<Longrightarrow> a \<in> below n P S"

text \<open>
  The hierarchy \<open>h\<close> with the \<open>children\<close> arrays of the nodes in \<open>S\<close> sorted, and the
  root array sorted if \<open>roots\<close> is set.
\<close>

definition withSorted :: "hierarchy \<Rightarrow> nat set \<Rightarrow> bool \<Rightarrow> hierarchy" where
  "withSorted h S roots =
     h\<lparr>nodes :=
         map (\<lambda>a. if a \<in> S
                   then (nodes h ! a)\<lparr>children :=
                          arraySort (compareNodes h) (children (nodes h ! a))\<rparr>
                   else nodes h ! a)
           [0 ..< length (nodes h)],
       rootNodes := (if roots then arraySort (compareNodes h) (rootNodes h) else rootNodes h)\<rparr>"

text \<open>
  How many of the listed elements are proper ancestors of the element at position \<open>a\<close>:
  a bound on the depth at which the sort reaches its node.
\<close>

definition listedAbove :: "element list \<Rightarrow> nat \<Rightarrow> nat" where
  "listedAbove es a = card {q. q < length es \<and> isAncestor (es ! q) (es ! a)}"


section \<open>ComponentTreeView: panel resize\<close>

text \<open>The \<open>resizeState\<close> captured by \<open>handleResizeStart\<close>.\<close>

record resize_state =
  startX :: real
  startY :: real
  startWidth :: real
  startHeight :: real
  startLeft :: real
  startTop :: real
  direction :: string

text \<open>The four style properties \<open>handleResize\<close> writes to the panel element.\<close>

record panel_style =
  style_width :: real
  style_height :: real
  style_left :: real
  style_top :: real

text \<open>
  \<open>ComponentTreeView.handleResize\<close>. \<open>panelElement\<close> tells whether the panel exists;
  without it, or without a resize state, the handler returns before writing any style
  (\<open>None\<close>). \<open>innerWidth\<close> and \<open>innerHeight\<close> are the window's.
\<close>

definition handleResize ::
  "bool \<Rightarrow> resize_state option \<Rightarrow> real \<Rightarrow> real \<Rightarrow> real \<Rightarrow> real \<Rightarrow> panel_style option" where
  "handleResize panelElement resizeState clientX clientY innerWidth innerHeight =
     (case resizeState of
        None \<Rightarrow> None
      | Some rs \<Rightarrow>
          if \<not> panelElement then None
          else
            let deltaX = clientX - startX rs;
                deltaY = clientY - startY rs;
                dir = direction rs;
                newWidth = (if str_includes dir ''right'' then startWidth rs + deltaX
                            else if str_includes dir ''left'' then startWidth rs - deltaX
                            else startWidth rs);
                newLeft = (if str_includes dir ''right'' then startLeft rs
                           else if str_includes dir ''left'' then startLeft rs + deltaX
                           else startLeft rs);
                newHeight = (if str_includes dir ''bottom'' then startHeight rs + deltaY
                             else if str_includes dir ''top'' then startHeight rs - deltaY
                             else startHeight rs);
                newTop = (if str_includes dir ''bottom'' then startTop rs
                          else if str_includes dir ''top'' then startTop rs + deltaY
                          else startTop rs);
                minWidth = 300;
                minHeight = 400;
                maxWidth = innerWidth;
                maxHeight = innerHeight;
                newWidth = max minWidth (min newWidth maxWidth);
                newHeight = max minHeight (min newHeight maxHeight);
                newLeft = (if str_includes dir ''left'' \<and> newWidth = minWidth
                           then startLeft rs + startWidth rs - minWidth else newLeft);
                newTop = (if str_includes dir ''top'' \<and> newHeight = minHeight
                          then startTop rs + startHeight rs - minHeight else newTop);
                newLeft = max 0 (min newLeft (innerWidth - newWidth));
                newTop = max 0 (min newTop (innerHeight - newHeight))
            in Some \<lparr>style_width = newWidth, style_height = newHeight,
                     style_left = newLeft, style_top = newTop\<rparr>)"


section \<open>A small rendered tree\<close>

text \<open>
  The page used where a property is run on a concrete input: an untagged wrapper holding
  component \<open>App\<close>, which holds \<open>Button\<close> (holding \<open>Card\<close>) and an untagged \<open>span\<close>
  holding a second \<open>Button\<close>; beside the wrapper a second \<open>Card\<close>, and an element
  that carries a source path but neither file name nor line.

  \<^verbatim>\<open>
  body                                   []
    div                                  [0]
      App     (App.scala:10)             [0, 0]
        Button  (Button.scala:7)         [0, 0, 0]
          Card    (Card.scala:9)         [0, 0, 0, 0]
        span                             [1, 0, 0]
          Button  (Button.scala:7)       [0, 1, 0, 0]
    Card    (Card.scala:9)               [1]
    div     (source path only)           [2]
  \<close>
\<close>

definition untagged :: el_props where
  "untagged = \<lparr>scalasourcepath = None, scalafilename = None, scalasourceline = None\<rparr>"

definition tagged :: "string \<Rightarrow> string \<Rightarrow> string \<Rightarrow> el_props" where
  "tagged srcPath file lineNo =
     \<lparr>scalasourcepath = Some srcPath, scalafilename = Some file, scalasourceline = Some lineNo\<rparr>"

definition examplePage :: dom_node where
  "examplePage =
     DomNode untagged
       [DomNode untagged
          [DomNode (tagged ''/src/App.scala'' ''App.scala'' ''10'')
             [DomNode (tagged ''/src/Button.scala'' ''Button.scala'' ''7'')
                [DomNode (tagged ''/src/Card.scala'' ''Card.scala'' ''9'') []],
              DomNode untagged
                [DomNode (tagged ''/src/Button.scala'' ''Button.scala'' ''7'') []]]],
        DomNode (tagged ''/src/Card.scala'' ''Card.scala'' ''9'') [],
        DomNode \<lparr>scalasourcepath = Some ''/src/Raw.scala'', scalafilename = None,
                 scalasourceline = None\<rparr> []]"


text \<open>
  A second page, where a component sits inside an element that carries a source path
  but neither file name nor line, itself inside component \<open>App\<close>.
\<close>

definition nestedPage :: dom_node where
  "nestedPage =
     DomNode untagged
       [DomNode (tagged ''/src/App.scala'' ''App.scala'' ''10'')
          [DomNode \<lparr>scalasourcepath = Some ''/src/Raw.scala'', scalafilename = None,
                    scalasourceline = None\<rparr>
             [DomNode (tagged ''/src/Card.scala'' ''Card.scala'' ''9'') []]]]"


text \<open>
  The components of the example page in another order than the document's, with every
  component still after its parent (second \<open>Card\<close>, \<open>App\<close>, second \<open>Button\<close>,
  \<open>Button\<close>, \<open>Card\<close>), and in reverse document order.
\<close>

definition shuffledComponents :: "component_info list" where
  "shuffledComponents = map (\<lambda>i. getAllComponents examplePage ! i) [4, 0, 3, 1, 2]"

definition reversedComponents :: "component_info list" where
  "reversedComponents = rev (getAllComponents examplePage)"

text \<open>A list that names component \<open>App\<close> of the example page twice.\<close>

definition duplicatedComponents :: "component_info list" where
  "duplicatedComponents = [getAllComponents examplePage ! 0, getAllComponents examplePage ! 0]"


text \<open>
  The run after a click on \<open>App\<close> in the tree panel, from the initial state, with the
  overlay manager subscribed.
\<close>

definition afterTreeClick :: "sys run" where
  "afterTreeClick =
     snd (showOverlayForElement examplePage [overlayObserver examplePage] (Some [0, 0]) True
            (initialRun (initialState \<lparr>overlay = initialOverlay\<rparr>)))"


text \<open>
  The tree view after a first build on the example page, once the user has expanded
  \<open>App\<close> and selected \<open>Button\<close>.
\<close>

definition exampleView :: component_tree_view where
  "exampleView =
     selectNode 1 (toggleNodeExpansion 0 (snd (buildTreeData examplePage initialView)))"


section \<open>Properties\<close>

subsection \<open>The depth-first traversal terminates\<close>

lemma descend_append:
  "descend n (xs @ ys) = (case descend n xs of None \<Rightarrow> None | Some m \<Rightarrow> descend m ys)"
  by (induction xs arbitrary: n) auto

lemma nodeAt_child:
  "nodeAt body (i # p) =
     (case nodeAt body p of
        None \<Rightarrow> None
      | Some m \<Rightarrow> if i < length (childElements m) then Some (childElements m ! i) else None)"
  by (simp add: nodeAt_def descend_append split: option.splits)

lemma nodeCount_child:
  "i < length (childElements n) \<Longrightarrow> nodeCount (childElements n ! i) < nodeCount n"
proof -
  assume i: "i < length (childElements n)"
  obtain props cs where n: "n = DomNode props cs" by (cases n)
  from i n have "nodeCount (cs ! i) \<in> set (map nodeCount cs)" by simp
  then have "nodeCount (cs ! i) \<le> sum_list (map nodeCount cs)"
    by (simp add: member_le_sum_list)
  with n show ?thesis by simp
qed

lemma walk_subtree:
  "c \<in> set (walkNode f e k) \<Longrightarrow> nodeAt body e = Some k \<Longrightarrow>
     \<exists>k'. nodeAt body c = Some k' \<and> nodeCount k' \<le> nodeCount k"
  "c \<in> set (walkChildren f p i cs) \<Longrightarrow> nodeAt body p = Some n \<Longrightarrow>
     childElements n = pre @ cs \<Longrightarrow> length pre = i \<Longrightarrow>
     \<exists>k'. nodeAt body c = Some k' \<and> nodeCount k' < nodeCount n"
proof (induction f e k and f p i cs arbitrary: and n pre rule: walkNode_walkChildren.induct)
  case (1 acceptNode e props cs)
  show ?case
  proof (cases "c = e")
    case True
    with "1.prems" show ?thesis by simp
  next
    case False
    with "1.prems" have mem: "c \<in> set (walkChildren acceptNode e 0 cs)"
      by (auto split: filter_result.splits)
    have ce: "childElements (DomNode props cs) = [] @ cs" by simp
    show ?thesis
    proof (cases "acceptNode e")
      case FILTER_ACCEPT
      from "1.IH"(1) [OF FILTER_ACCEPT mem "1.prems"(2) ce] show ?thesis
        by (auto intro: less_imp_le)
    next
      case FILTER_REJECT
      with "1.prems" show ?thesis by simp
    next
      case FILTER_SKIP
      from "1.IH"(2) [OF FILTER_SKIP mem "1.prems"(2) ce] show ?thesis
        by (auto intro: less_imp_le)
    qed
  qed
next
  case (2 acceptNode p i)
  then show ?case by simp
next
  case (3 acceptNode p i c' cs)
  from "3.prems" have i: "i < length (childElements n)" and ci: "childElements n ! i = c'"
    by (auto simp: nth_append)
  from "3.prems"(2) i ci have at: "nodeAt body (i # p) = Some c'"
    by (simp add: nodeAt_child)
  from "3.prems"(1) consider
    (here) "c \<in> set (walkNode acceptNode (i # p) c')"
    | (later) "c \<in> set (walkChildren acceptNode p (Suc i) cs)"
    by auto
  then show ?case
  proof cases
    case here
    from "3.IH"(1) [OF here at] nodeCount_child [OF i] ci show ?thesis by auto
  next
    case later
    from "3.prems"(3,4) have "childElements n = (pre @ [c']) @ cs" "length (pre @ [c']) = Suc i"
      by simp_all
    from "3.IH"(2) [OF later "3.prems"(2) this] show ?thesis .
  qed
qed

lemma findChildComponents_smaller:
  assumes "c \<in> set (findChildComponents body e)"
  shows "subtreeCount body c < subtreeCount body e"
proof (cases "nodeAt body e")
  case None
  with assms show ?thesis by (simp add: findChildComponents_def treeWalkerNodes_def)
next
  case (Some n)
  with assms obtain f where "c \<in> set (walkChildren f e 0 (childElements n))"
    by (auto simp: findChildComponents_def treeWalkerNodes_def)
  from walk_subtree(2) [OF this Some, of "[]"] Some show ?thesis
    by (auto simp: subtreeCount_def)
qed

termination traverseDepthFirst
  by (relation "measure (\<lambda>(body, e). subtreeCount body e)")
    (auto simp: findChildComponents_smaller)

declare traverseDepthFirst.simps [simp del]


subsection \<open>Array helpers\<close>

lemma indexOfFrom_absent: "x \<notin> set ys \<Longrightarrow> indexOfFrom i ys x = - 1"
  by (induction ys arbitrary: i) auto

lemma indexOfFrom_range:
  "x \<in> set ys \<Longrightarrow> 0 \<le> i \<Longrightarrow> i \<le> indexOfFrom i ys x \<and> indexOfFrom i ys x < i + int (length ys)"
proof (induction ys arbitrary: i)
  case Nil
  then show ?case by simp
next
  case (Cons y ys)
  show ?case
  proof (cases "y = x")
    case True
    then show ?thesis by simp
  next
    case False
    with Cons.prems have "x \<in> set ys" by simp
    from Cons.IH [OF this, of "i + 1"] Cons.prems False show ?thesis by simp
  qed
qed

lemma indexOfFrom_nth:
  "distinct ys \<Longrightarrow> k < length ys \<Longrightarrow> indexOfFrom i ys (ys ! k) = i + int k"
proof (induction ys arbitrary: i k)
  case Nil
  then show ?case by simp
next
  case (Cons y ys)
  show ?case
  proof (cases k)
    case 0
    then show ?thesis by simp
  next
    case (Suc j)
    with Cons.prems have j: "j < length ys" and d: "distinct ys" and ne: "y \<noteq> ys ! j"
      by auto
    from Cons.IH [OF d j, of "i + 1"] Suc ne show ?thesis by simp
  qed
qed


subsection \<open>Panel resize keeps the minimum size\<close>

text \<open>
  C8. Whatever the handle direction, the pointer position and the viewport, a resize step
  on an existing panel with a captured resize state writes the panel's style, with a
  width of at least 300 and a height of at least 400.
\<close>

theorem handleResize_min_size:
  "\<exists>st. handleResize True (Some rs) clientX clientY innerWidth innerHeight = Some st
        \<and> 300 \<le> style_width st \<and> 400 \<le> style_height st"
  unfolding handleResize_def
  apply (simp only: option.case not_True_eq_False if_False Let_def)
  apply (rule exI, intro conjI, rule refl)
   apply (simp_all only: panel_style.simps max.cobounded1)
  done


subsection \<open>Sibling navigation when the current element is not among the siblings\<close>

text \<open>
  C10. When the current element does not occur in the sibling list, next-sibling returns
  the first element of the list and previous-sibling the last one, and both return null
  for an empty list. Neither function has a failing branch.
\<close>

theorem sibling_absent_degrades:
  assumes "currentElement \<notin> set siblings"
  shows "getNextSibling currentElement siblings =
           (if siblings = [] then None else Some (hd siblings))
       \<and> getPreviousSibling currentElement siblings =
           (if siblings = [] then None else Some (last siblings))"
proof (cases siblings)
  case Nil
  then show ?thesis by (simp add: getNextSibling_def getPreviousSibling_def)
next
  case (Cons s ss)
  have idx: "indexOf siblings currentElement = - 1"
    using assms by (simp add: indexOf_def indexOfFrom_absent)
  have l: "last siblings = siblings ! (length siblings - 1)"
    using Cons by (simp add: last_conv_nth)
  show ?thesis
    using Cons idx l
    by (simp add: getNextSibling_def getPreviousSibling_def arrayAt_def Let_def del: last.simps)
qed

theorem sibling_absent_degrades_witness:
  "(5::nat) \<notin> set [1, 2, 3]
   \<and> getNextSibling (5::nat) [1, 2, 3] = Some 1
   \<and> getPreviousSibling (5::nat) [1, 2, 3] = Some 3
   \<and> getNextSibling (5::nat) [] = None
   \<and> getPreviousSibling (5::nat) [] = None"
  using sibling_absent_degrades [of "5::nat" "[1, 2, 3]"]
    sibling_absent_degrades [of "5::nat" "[]"]
  by simp


subsection \<open>Overlay and tooltip rectangles and the viewport\<close>

lemma firstFitting_fits:
  "firstFitting vw vh w h m ps = Some p \<Longrightarrow> isPositionWithinViewport vw vh p w h m"
  by (induction ps) (auto split: if_splits)

lemma calculatePosition_within:
  "withinViewport vw vh
     (pos_left (calculatePosition cssOffset vw vh r)) (pos_top (calculatePosition cssOffset vw vh r))
     (pos_width (calculatePosition cssOffset vw vh r)) (pos_height (calculatePosition cssOffset vw vh r))"
proof -
  have fit: "a + min w (v - a) \<le> v" for a w v :: real
    by linarith
  show ?thesis
    by (simp add: calculatePosition_def withinViewport_def Let_def fit)
qed

lemma calculateTooltipPosition_within:
  assumes m: "0 \<le> parseIntOr cssMargin 10"
    and w: "tw + real_of_int (parseIntOr cssMargin 10) \<le> vw"
    and h: "th + real_of_int (parseIntOr cssMargin 10) \<le> vh"
  shows "withinViewport vw vh
     (tip_left (calculateTooltipPosition cssMargin vw vh orect tw th))
     (tip_top (calculateTooltipPosition cssMargin vw vh orect tw th)) tw th"
proof -
  define mg where "mg = real_of_int (parseIntOr cssMargin 10)"
  have mg0: "0 \<le> mg" using m by (simp add: mg_def)
  define strategies where "strategies =
            [\<lparr>tip_left = rect_left orect + rect_width orect / 2 - tw / 2,
              tip_top = rect_bottom orect + mg\<rparr>,
             \<lparr>tip_left = rect_left orect + rect_width orect / 2 - tw / 2,
              tip_top = rect_top orect - th - mg\<rparr>,
             \<lparr>tip_left = rect_right orect + mg,
              tip_top = rect_top orect + rect_height orect / 2 - th / 2\<rparr>,
             \<lparr>tip_left = rect_left orect - tw - mg,
              tip_top = rect_top orect + rect_height orect / 2 - th / 2\<rparr>]"
  show ?thesis
  proof (cases "firstFitting vw vh tw th mg strategies")
    case None
    then have eq: "calculateTooltipPosition cssMargin vw vh orect tw th =
        \<lparr>tip_left = max mg (min (rect_left orect + rect_width orect / 2 - tw / 2) (vw - tw - mg)),
         tip_top = max mg (min (rect_bottom orect + mg) (vh - th - mg))\<rparr>"
      unfolding calculateTooltipPosition_def Let_def mg_def strategies_def by simp
    show ?thesis
      unfolding eq withinViewport_def using mg0 w h
      by (simp add: mg_def [symmetric]) linarith
  next
    case (Some p)
    then have eq: "calculateTooltipPosition cssMargin vw vh orect tw th = p"
      unfolding calculateTooltipPosition_def Let_def mg_def strategies_def by simp
    from firstFitting_fits [OF Some] mg0 show ?thesis
      unfolding eq withinViewport_def isPositionWithinViewport_def by linarith
  qed
qed

lemma calculateTooltipPosition_corner:
  assumes m: "0 \<le> parseIntOr cssMargin 10"
  shows "real_of_int (parseIntOr cssMargin 10)
           \<le> tip_left (calculateTooltipPosition cssMargin vw vh orect tw th)
       \<and> real_of_int (parseIntOr cssMargin 10)
           \<le> tip_top (calculateTooltipPosition cssMargin vw vh orect tw th)"
proof -
  define mg where "mg = real_of_int (parseIntOr cssMargin 10)"
  define strategies where "strategies =
            [\<lparr>tip_left = rect_left orect + rect_width orect / 2 - tw / 2,
              tip_top = rect_bottom orect + mg\<rparr>,
             \<lparr>tip_left = rect_left orect + rect_width orect / 2 - tw / 2,
              tip_top = rect_top orect - th - mg\<rparr>,
             \<lparr>tip_left = rect_right orect + mg,
              tip_top = rect_top orect + rect_height orect / 2 - th / 2\<rparr>,
             \<lparr>tip_left = rect_left orect - tw - mg,
              tip_top = rect_top orect + rect_height orect / 2 - th / 2\<rparr>]"
  show ?thesis
  proof (cases "firstFitting vw vh tw th mg strategies")
    case None
    then have eq: "calculateTooltipPosition cssMargin vw vh orect tw th =
        \<lparr>tip_left = max mg (min (rect_left orect + rect_width orect / 2 - tw / 2) (vw - tw - mg)),
         tip_top = max mg (min (rect_bottom orect + mg) (vh - th - mg))\<rparr>"
      unfolding calculateTooltipPosition_def Let_def mg_def strategies_def by simp
    show ?thesis
      unfolding eq by (simp add: mg_def [symmetric])
  next
    case (Some p)
    then have eq: "calculateTooltipPosition cssMargin vw vh orect tw th = p"
      unfolding calculateTooltipPosition_def Let_def mg_def strategies_def by simp
    from firstFitting_fits [OF Some] show ?thesis
      unfolding eq isPositionWithinViewport_def by (simp add: mg_def)
  qed
qed

text \<open>
  The tooltip never starts nearer to the left or top edge than one margin. So a tooltip
  that, with one margin added, is wider or higher than the viewport extends beyond it,
  wherever the target is.
\<close>

lemma tooltip_overflows_without_margin:
  assumes "0 \<le> parseIntOr cssMargin 10"
    and "vw < tw + real_of_int (parseIntOr cssMargin 10)
         \<or> vh < th + real_of_int (parseIntOr cssMargin 10)"
  shows "\<not> withinViewport vw vh
     (tip_left (calculateTooltipPosition cssMargin vw vh orect tw th))
     (tip_top (calculateTooltipPosition cssMargin vw vh orect tw th)) tw th"
  using calculateTooltipPosition_corner [OF assms(1), of vw vh orect tw th] assms(2)
  by (auto simp: withinViewport_def)

text \<open>
  C4 as stated fails for the tooltip, also for a tooltip that fits the viewport. With
  the default offset 6 and margin 10 and a target at (100, 100) of size 50 by 20: in a
  320 by 240 viewport a tooltip measuring 315 by 30 could be placed at (5, 100) within
  the viewport, but no strategy fits, the fallback puts it at left = 10, and its right
  edge is at 325; in a 1280 by 800 viewport a tooltip measuring 1275 by 30 could be
  placed at (5, 100), is put at left = 10, and its right edge is at 1285.
\<close>

theorem tooltip_fits_but_overflows:
  "withinViewport 320 240 5 100 315 30
   \<and> tip_left (calculateTooltipPosition (Some 10) 320 240
        (overlayRectOf (Some 6) \<lparr>rect_left = 100, rect_top = 100, rect_right = 150,
           rect_bottom = 120, rect_width = 50, rect_height = 20\<rparr>) 315 30) = 10
   \<and> \<not> withinViewport 320 240
        (tip_left (calculateTooltipPosition (Some 10) 320 240
           (overlayRectOf (Some 6) \<lparr>rect_left = 100, rect_top = 100, rect_right = 150,
              rect_bottom = 120, rect_width = 50, rect_height = 20\<rparr>) 315 30))
        (tip_top (calculateTooltipPosition (Some 10) 320 240
           (overlayRectOf (Some 6) \<lparr>rect_left = 100, rect_top = 100, rect_right = 150,
              rect_bottom = 120, rect_width = 50, rect_height = 20\<rparr>) 315 30))
        315 30
   \<and> withinViewport 1280 800 5 100 1275 30
   \<and> tip_left (calculateTooltipPosition (Some 10) 1280 800
        (overlayRectOf (Some 6) \<lparr>rect_left = 100, rect_top = 100, rect_right = 150,
           rect_bottom = 120, rect_width = 50, rect_height = 20\<rparr>) 1275 30) = 10
   \<and> \<not> withinViewport 1280 800
        (tip_left (calculateTooltipPosition (Some 10) 1280 800
           (overlayRectOf (Some 6) \<lparr>rect_left = 100, rect_top = 100, rect_right = 150,
              rect_bottom = 120, rect_width = 50, rect_height = 20\<rparr>) 1275 30))
        (tip_top (calculateTooltipPosition (Some 10) 1280 800
           (overlayRectOf (Some 6) \<lparr>rect_left = 100, rect_top = 100, rect_right = 150,
              rect_bottom = 120, rect_width = 50, rect_height = 20\<rparr>) 1275 30))
        1275 30"
  by (simp add: calculateTooltipPosition_def overlayRectOf_def parseIntOr_def
      isPositionWithinViewport_def withinViewport_def Let_def)

text \<open>
  C4, amended. For every target rectangle and every viewport the overlay rectangle lies
  within the viewport. The tooltip rectangle (the computed corner with the measured
  tooltip size) lies within the viewport whenever the margin is not negative and the
  viewport is at least as wide and as high as the tooltip plus one margin; by the lemma
  above it does not when the viewport is narrower or lower than that.
\<close>

theorem positioning_within_viewport:
  assumes "0 \<le> parseIntOr cssMargin 10"
    and "tooltipWidth + real_of_int (parseIntOr cssMargin 10) \<le> viewportWidth"
    and "tooltipHeight + real_of_int (parseIntOr cssMargin 10) \<le> viewportHeight"
  shows "withinViewport viewportWidth viewportHeight
           (pos_left (calculatePosition cssOffset viewportWidth viewportHeight targetRect))
           (pos_top (calculatePosition cssOffset viewportWidth viewportHeight targetRect))
           (pos_width (calculatePosition cssOffset viewportWidth viewportHeight targetRect))
           (pos_height (calculatePosition cssOffset viewportWidth viewportHeight targetRect))
       \<and> withinViewport viewportWidth viewportHeight
           (tip_left (calculateTooltipPosition cssMargin viewportWidth viewportHeight
              (overlayRectOf cssOffset targetRect) tooltipWidth tooltipHeight))
           (tip_top (calculateTooltipPosition cssMargin viewportWidth viewportHeight
              (overlayRectOf cssOffset targetRect) tooltipWidth tooltipHeight))
           tooltipWidth tooltipHeight"
  using assms calculatePosition_within calculateTooltipPosition_within by blast

theorem positioning_within_viewport_witness:
  "(0::int) \<le> parseIntOr (Some 10) 10
   \<and> (80::real) + real_of_int (parseIntOr (Some 10) 10) \<le> 320
   \<and> (30::real) + real_of_int (parseIntOr (Some 10) 10) \<le> 240
   \<and> withinViewport 320 240
        (pos_left (calculatePosition (Some 6) 320 240
           \<lparr>rect_left = 300, rect_top = 100, rect_right = 350,
            rect_bottom = 120, rect_width = 50, rect_height = 20\<rparr>))
        (pos_top (calculatePosition (Some 6) 320 240
           \<lparr>rect_left = 300, rect_top = 100, rect_right = 350,
            rect_bottom = 120, rect_width = 50, rect_height = 20\<rparr>))
        (pos_width (calculatePosition (Some 6) 320 240
           \<lparr>rect_left = 300, rect_top = 100, rect_right = 350,
            rect_bottom = 120, rect_width = 50, rect_height = 20\<rparr>))
        (pos_height (calculatePosition (Some 6) 320 240
           \<lparr>rect_left = 300, rect_top = 100, rect_right = 350,
            rect_bottom = 120, rect_width = 50, rect_height = 20\<rparr>))
   \<and> withinViewport 320 240
        (tip_left (calculateTooltipPosition (Some 10) 320 240
           (overlayRectOf (Some 6) \<lparr>rect_left = 300, rect_top = 100, rect_right = 350,
              rect_bottom = 120, rect_width = 50, rect_height = 20\<rparr>) 80 30))
        (tip_top (calculateTooltipPosition (Some 10) 320 240
           (overlayRectOf (Some 6) \<lparr>rect_left = 300, rect_top = 100, rect_right = 350,
              rect_bottom = 120, rect_width = 50, rect_height = 20\<rparr>) 80 30))
        80 30"
proof -
  have m: "(0::int) \<le> parseIntOr (Some 10) 10"
    by (simp add: parseIntOr_def)
  have w: "(80::real) + real_of_int (parseIntOr (Some 10) 10) \<le> 320"
    by (simp add: parseIntOr_def)
  have h: "(30::real) + real_of_int (parseIntOr (Some 10) 10) \<le> 240"
    by (simp add: parseIntOr_def)
  from positioning_within_viewport [OF m w h, of "Some 6"] m w h
  show ?thesis by blast
qed


subsection \<open>Notification: failure isolation\<close>

lemma notifyFrom_result:
  "fst (notifyFrom i observers c r) = Inr ()
   \<and> invocations (snd (notifyFrom i observers c r)) =
       invocations r @ map (\<lambda>j. (j, c)) [i ..< i + length observers]
   \<and> console (snd (notifyFrom i observers c r)) = console r @ thrownBy observers c (world r)"
proof (induction observers arbitrary: i r)
  case Nil
  show ?case by simp
next
  case (Cons callback rest)
  obtain res w' where cb: "callback c (world r) = (res, w')"
    by (cases "callback c (world r)")
  define r1 where "r1 = r\<lparr>world := w', invocations := invocations r @ [(i, c)]\<rparr>"
  define r2 where "r2 = (case res of Inl e \<Rightarrow> r1\<lparr>console := console r1 @ [e]\<rparr> | Inr u \<Rightarrow> r1)"
  have step: "tryCatch (invoke i callback c) consoleError r = (Inr (), r2)"
    by (cases res) (simp_all add: tryCatch_def invoke_def consoleError_def cb r1_def r2_def)
  have unfold: "notifyFrom i (callback # rest) c r = notifyFrom (Suc i) rest c r2"
    by (simp add: step)
  have inv2: "invocations r2 = invocations r @ [(i, c)]"
    by (cases res) (simp_all add: r2_def r1_def)
  have w2: "world r2 = w'"
    by (cases res) (simp_all add: r2_def r1_def)
  have con2: "console r2 @ thrownBy rest c w' = console r @ thrownBy (callback # rest) c (world r)"
    by (cases res) (simp_all add: r2_def r1_def cb)
  have range: "[i ..< i + length (callback # rest)] = i # [Suc i ..< Suc i + length rest]"
    by (subst upt_rec) simp
  from Cons.IH [of "Suc i" r2] show ?case
    unfolding unfold range by (simp add: inv2 w2 con2)
qed

lemma notify_invocations:
  "invocations (snd (notify observers c r)) =
     invocations r @ map (\<lambda>i. (i, c)) [0 ..< length observers]"
  using notifyFrom_result [of 0 observers c r] by (simp add: notify_def)

text \<open>
  C6. For every list of registered observers, whichever of them throw: \<open>notify\<close> itself
  returns normally, every observer is invoked once, in registration order, and every
  thrown exception is logged with \<open>console.error\<close>, in the order thrown.
\<close>

theorem notify_isolates_failures:
  "fst (notify observers c r) = Inr ()
   \<and> invocations (snd (notify observers c r)) =
       invocations r @ map (\<lambda>i. (i, c)) [0 ..< length observers]
   \<and> console (snd (notify observers c r)) = console r @ thrownBy observers c (world r)"
  using notifyFrom_result [of 0 observers c r] by (simp add: notify_def)


subsection \<open>Which mutators notify, and when\<close>

lemma andThen_modify:
  "andThen (modify f) g r = g (r\<lparr>world := f (world r)\<rparr>)"
  by (simp add: andThen_def modify_def)

lemma inv_setTreeSelectionActive:
  "invocations (snd (setTreeSelectionActive observers b r)) =
     invocations r @ (if treeSelectionActive (world r) \<noteq> b
        then map (\<lambda>i. (i, TreeSelectionActiveChanged b)) [0 ..< length observers] else [])"
  by (simp add: setTreeSelectionActive_def andThen_modify notify_invocations)

lemma inv_setTreeSelectedElement:
  "invocations (snd (setTreeSelectedElement observers e r)) =
     invocations r @ (if treeSelectedElement (world r) \<noteq> e
        then map (\<lambda>i. (i, TreeSelectionChanged e)) [0 ..< length observers] else [])"
  by (simp add: setTreeSelectedElement_def andThen_modify notify_invocations)

lemma inv_setKeyboardSelectedElement:
  "invocations (snd (setKeyboardSelectedElement observers e r)) =
     invocations r @ (if keyboardSelectedElement (world r) \<noteq> e
        then map (\<lambda>i. (i, KeyboardSelectionChanged e (keyboardSelectedElement (world r))))
               [0 ..< length observers] else [])"
  by (simp add: setKeyboardSelectedElement_def andThen_modify notify_invocations Let_def)

lemma inv_setAltPressed:
  "invocations (snd (setAltPressed observers b r)) =
     invocations r @ (if altPressed (world r) \<noteq> b
        then map (\<lambda>i. (i, AltKeyChanged b)) [0 ..< length observers] else [])"
  by (simp add: setAltPressed_def andThen_modify notify_invocations Let_def)

lemma inv_setShiftPressed:
  "invocations (snd (setShiftPressed observers b r)) =
     invocations r @ (if shiftPressed (world r) \<noteq> b
        then map (\<lambda>i. (i, ShiftKeyChanged b)) [0 ..< length observers] else [])"
  by (simp add: setShiftPressed_def andThen_modify notify_invocations Let_def)

lemma inv_setCurrentTargetElement:
  "invocations (snd (setCurrentTargetElement observers e r)) =
     invocations r @ (if currentTargetElement (world r) \<noteq> e
        then map (\<lambda>i. (i, TargetElementChanged e (currentTargetElement (world r))))
               [0 ..< length observers] else [])"
  by (simp add: setCurrentTargetElement_def andThen_modify notify_invocations Let_def)

lemma inv_setHierarchicalTooltipVisible:
  "invocations (snd (setHierarchicalTooltipVisible observers b r)) =
     invocations r @ (if hierarchicalTooltipVisible (world r) \<noteq> b
        then map (\<lambda>i. (i, HierarchicalTooltipVisibilityChanged b)) [0 ..< length observers]
        else [])"
  by (simp add: setHierarchicalTooltipVisible_def andThen_modify notify_invocations Let_def)

lemma inv_updateMousePosition:
  "invocations (snd (updateMousePosition observers x y r)) =
     invocations r @ map (\<lambda>i. (i, MousePositionChanged x y)) [0 ..< length observers]"
  by (simp add: updateMousePosition_def andThen_modify notify_invocations)

lemma inv_reset:
  "invocations (snd (reset observers r)) =
     invocations r @ map (\<lambda>i. (i, Reset)) [0 ..< length observers]"
  by (simp add: reset_def andThen_modify notify_invocations)

lemma inv_setKeyboardNavigationActive:
  "invocations (snd (setKeyboardNavigationActive b r)) = invocations r"
  by (simp add: setKeyboardNavigationActive_def modify_def)

text \<open>
  C5 as stated fails for two mutators. In the initial state, with one observer that does
  nothing: \<open>updateMousePosition(0, 0)\<close> leaves the position at (0, 0) and still invokes
  the observer; \<open>setKeyboardNavigationActive(true)\<close> changes the flag from false to true
  and invokes no observer.
\<close>

theorem mutators_without_comparison:
  "currentMousePosition (world (initialRun (initialState ()))) = (0, 0)
   \<and> invocations (snd (updateMousePosition [\<lambda>c w. (Inr (), w)] 0 0 (initialRun (initialState ()))))
       = [(0, MousePositionChanged 0 0)]
   \<and> keyboardNavigationActive (world (initialRun (initialState ()))) = False
   \<and> keyboardNavigationActive
       (world (snd (setKeyboardNavigationActive True (initialRun (initialState ()))))) = True
   \<and> invocations (snd (setKeyboardNavigationActive True (initialRun (initialState ())))) = []"
  by (simp add: updateMousePosition_def setKeyboardNavigationActive_def andThen_def modify_def
      notify_def tryCatch_def invoke_def initialRun_def initialState_def)

text \<open>
  C5, amended. Each of \<open>setTreeSelectionActive\<close>, \<open>setTreeSelectedElement\<close>,
  \<open>setKeyboardSelectedElement\<close>, \<open>setAltPressed\<close>, \<open>setShiftPressed\<close>,
  \<open>setCurrentTargetElement\<close> and \<open>setHierarchicalTooltipVisible\<close> compares the old value
  with the new one and invokes every registered observer, once and in registration
  order, if and only if the value changed; called with the current value it invokes no
  observer. \<open>updateMousePosition\<close> and \<open>reset\<close> invoke every observer on every call.
\<close>

theorem mutators_notify_on_change:
  "invocations (snd (setTreeSelectionActive observers b r)) =
     invocations r @ (if treeSelectionActive (world r) \<noteq> b
        then map (\<lambda>i. (i, TreeSelectionActiveChanged b)) [0 ..< length observers] else [])
   \<and> invocations (snd (setTreeSelectedElement observers e r)) =
     invocations r @ (if treeSelectedElement (world r) \<noteq> e
        then map (\<lambda>i. (i, TreeSelectionChanged e)) [0 ..< length observers] else [])
   \<and> invocations (snd (setKeyboardSelectedElement observers e r)) =
     invocations r @ (if keyboardSelectedElement (world r) \<noteq> e
        then map (\<lambda>i. (i, KeyboardSelectionChanged e (keyboardSelectedElement (world r))))
               [0 ..< length observers] else [])
   \<and> invocations (snd (setAltPressed observers b r)) =
     invocations r @ (if altPressed (world r) \<noteq> b
        then map (\<lambda>i. (i, AltKeyChanged b)) [0 ..< length observers] else [])
   \<and> invocations (snd (setShiftPressed observers b r)) =
     invocations r @ (if shiftPressed (world r) \<noteq> b
        then map (\<lambda>i. (i, ShiftKeyChanged b)) [0 ..< length observers] else [])
   \<and> invocations (snd (setCurrentTargetElement observers e r)) =
     invocations r @ (if currentTargetElement (world r) \<noteq> e
        then map (\<lambda>i. (i, TargetElementChanged e (currentTargetElement (world r))))
               [0 ..< length observers] else [])
   \<and> invocations (snd (setHierarchicalTooltipVisible observers b r)) =
     invocations r @ (if hierarchicalTooltipVisible (world r) \<noteq> b
        then map (\<lambda>i. (i, HierarchicalTooltipVisibilityChanged b)) [0 ..< length observers]
        else [])
   \<and> invocations (snd (updateMousePosition observers x y r)) =
     invocations r @ map (\<lambda>i. (i, MousePositionChanged x y)) [0 ..< length observers]
   \<and> invocations (snd (reset observers r)) =
     invocations r @ map (\<lambda>i. (i, Reset)) [0 ..< length observers]"
  by (intro conjI inv_setTreeSelectionActive inv_setTreeSelectedElement
      inv_setKeyboardSelectedElement inv_setAltPressed inv_setShiftPressed
      inv_setCurrentTargetElement inv_setHierarchicalTooltipVisible
      inv_updateMousePosition inv_reset)


subsection \<open>Tree selection takes precedence over pointer hover\<close>

lemma hover_step:
  assumes a: "treeSelectionActive (world r)" and t: "treeSelectedElement (world r) = Some t"
    and s: "overlayShows (world r) t" and h: "h \<noteq> Some t"
  shows "\<exists>r'. setCurrentTargetElement [overlayObserver body] h r = (Inr (), r')
     \<and> treeSelectionActive (world r') \<and> treeSelectedElement (world r') = Some t
     \<and> overlayShows (world r') t"
proof (cases "currentTargetElement (world r) = h")
  case True
  then show ?thesis using a t s
    by (simp add: setCurrentTargetElement_def andThen_modify Let_def overlayShows_def)
next
  case False
  then show ?thesis using a t s h
    by (simp add: setCurrentTargetElement_def andThen_modify Let_def overlayShows_def
        notify_def tryCatch_def invoke_def overlayObserver_def handleStateChange_def)
qed

text \<open>
  C2. While tree selection is active and the overlay shows the tree-selected element,
  every new hover target that is not the tree-selected element (another element, or
  none) leaves the overlay on the tree-selected element: after any sequence of such
  hover changes the overlay is visible on the tree-selected element, hence on no hovered
  one, and tree selection is still active. Only a mutator that clears the tree selection
  ends this.
\<close>

theorem tree_selection_precedence:
  assumes "treeSelectionActive (world r)" and "treeSelectedElement (world r) = Some t"
    and "overlayShows (world r) t" and "\<forall>h \<in> set hs. h \<noteq> Some t"
  shows "fst (hoverAll body hs r) = Inr ()
     \<and> treeSelectionActive (world (snd (hoverAll body hs r)))
     \<and> treeSelectedElement (world (snd (hoverAll body hs r))) = Some t
     \<and> overlayShows (world (snd (hoverAll body hs r))) t"
  using assms
proof (induction hs arbitrary: r)
  case Nil
  then show ?case by simp
next
  case (Cons h hs)
  from Cons.prems have h: "h \<noteq> Some t" and rest: "\<forall>h \<in> set hs. h \<noteq> Some t"
    by simp_all
  from hover_step [OF Cons.prems(1-3) h, of body]
  obtain r' where step: "setCurrentTargetElement [overlayObserver body] h r = (Inr (), r')"
    and a': "treeSelectionActive (world r')" and t': "treeSelectedElement (world r') = Some t"
    and s': "overlayShows (world r') t"
    by blast
  have "hoverAll body (h # hs) r = hoverAll body hs r'"
    by (simp add: andThen_def step)
  with Cons.IH [OF a' t' s' rest] show ?case by simp
qed

text \<open>
  The hypotheses are reached by a click in the tree panel: in \<open>afterTreeClick\<close> the
  overlay is on \<open>App\<close>, and hovering over its \<open>Button\<close>, then nothing, then the
  \<open>Card\<close> leaves it there.
\<close>

lemma afterTreeClick_eval:
  "treeSelectionActive (world afterTreeClick)
   \<and> treeSelectedElement (world afterTreeClick) = Some [0, 0]
   \<and> overlayShows (world afterTreeClick) [0, 0]"
  by (simp add: afterTreeClick_def showOverlayForElement_def hasSourcePath_def
      hasAllProperties_def getSourcePath_def getFilename_def getSourceLine_def nodeAt_def
      examplePage_def tagged_def untagged_def setTreeSelectionActive_def
      setTreeSelectedElement_def andThen_def modify_def notify_def tryCatch_def invoke_def
      overlayObserver_def handleStateChange_def show_overlay_def overlayShows_def
      initialRun_def initialState_def initialOverlay_def)

theorem tree_selection_precedence_witness:
  "treeSelectionActive (world afterTreeClick)
   \<and> treeSelectedElement (world afterTreeClick) = Some [0, 0]
   \<and> overlayShows (world afterTreeClick) [0, 0]
   \<and> overlayShows
       (world (snd (hoverAll examplePage [Some [0, 0, 0], None, Some [1]] afterTreeClick)))
       [0, 0]"
proof -
  have hs: "\<forall>h \<in> set [Some [0, 0, 0], None, Some [1]]. h \<noteq> Some [0, 0::nat]"
    by simp
  from afterTreeClick_eval
    tree_selection_precedence [of afterTreeClick "[0, 0]" "[Some [0, 0, 0], None, Some [1]]"
      examplePage]
    hs
  show ?thesis by blast
qed



subsection \<open>Depth-first discovery returns the tagged elements in document order\<close>

lemma walk_shape:
  "c \<in> set (walkNode f e k) \<Longrightarrow> \<exists>x. c = x @ e"
  "c \<in> set (walkChildren f p i cs) \<Longrightarrow> \<exists>x j. c = x @ j # p \<and> i \<le> j"
proof (induction f e k and f p i cs rule: walkNode_walkChildren.induct)
  case (1 acceptNode e props cs)
  show ?case
  proof (cases "c = e")
    case True
    then show ?thesis by simp
  next
    case False
    with "1.prems" have mem: "c \<in> set (walkChildren acceptNode e 0 cs)"
      by (auto split: filter_result.splits)
    from "1.prems" False have "acceptNode e = FILTER_ACCEPT \<or> acceptNode e = FILTER_SKIP"
      by (cases "acceptNode e") auto
    with "1.IH" mem obtain x j where "c = x @ j # e" by blast
    then have "c = (x @ [j]) @ e" by simp
    then show ?thesis by blast
  qed
next
  case (2 acceptNode p i)
  then show ?case by simp
next
  case (3 acceptNode p i c' cs)
  from "3.prems" consider
    (here) "c \<in> set (walkNode acceptNode (i # p) c')"
    | (later) "c \<in> set (walkChildren acceptNode p (Suc i) cs)"
    by auto
  then show ?case
  proof cases
    case here
    from "3.IH"(1) [OF here] show ?thesis by blast
  next
    case later
    from "3.IH"(2) [OF later] obtain x j where "c = x @ j # p" "Suc i \<le> j" by blast
    then show ?thesis by (intro exI [of _ x] exI [of _ j]) simp
  qed
qed

lemma walk_cong:
  "(\<And>x. f (x @ e) = g (x @ e)) \<Longrightarrow> walkNode f e k = walkNode g e k"
  "(\<And>x. x \<noteq> [] \<Longrightarrow> f (x @ p) = g (x @ p)) \<Longrightarrow> walkChildren f p i cs = walkChildren g p i cs"
proof (induction f e k and f p i cs rule: walkNode_walkChildren.induct)
  case (1 acceptNode e props cs)
  from "1.prems" [of "[]"] have fe: "acceptNode e = g e" by simp
  have rest: "\<And>x. x \<noteq> [] \<Longrightarrow> acceptNode (x @ e) = g (x @ e)"
    using "1.prems" by simp
  show ?case
  proof (cases "acceptNode e")
    case FILTER_ACCEPT
    with "1.IH"(1) [OF FILTER_ACCEPT rest] fe show ?thesis by simp
  next
    case FILTER_REJECT
    with fe show ?thesis by simp
  next
    case FILTER_SKIP
    with "1.IH"(2) [OF FILTER_SKIP rest] fe show ?thesis by simp
  qed
next
  case (2 acceptNode p i)
  show ?case by simp
next
  case (3 acceptNode p i c' cs)
  have a: "\<And>x. acceptNode (x @ i # p) = g (x @ i # p)"
  proof -
    fix x
    from "3.prems" [of "x @ [i]"] show "acceptNode (x @ i # p) = g (x @ i # p)" by simp
  qed
  from "3.IH"(1) [OF a] "3.IH"(2) [OF "3.prems"] show ?case by simp
qed


lemma isDirectChildLoop_below_tagged:
  assumes "hasSourcePath body e" and "e = x @ r" and "x \<noteq> []"
  shows "\<not> isDirectChildLoop body r (z @ e)"
proof (induction z)
  case Nil
  from assms have "e \<noteq> []" by simp
  then obtain i p where e: "e = i # p" by (auto simp: neq_Nil_conv)
  from assms have "e \<noteq> r" by auto
  with assms(1) e show ?case by simp
next
  case (Cons a z)
  from assms have "length r < length (a # z @ e)" by simp
  then have "a # z @ e \<noteq> r" by auto
  with Cons show ?case by simp
qed

lemma not_direct_below_tagged:
  assumes "hasSourcePath body e" and "e = x @ r" and "x \<noteq> []"
    and "w \<in> set (walkChildren f e i cs)"
  shows "\<not> isDirectChild body r w"
proof -
  from walk_shape(2) [OF assms(4)] obtain y j where w: "w = y @ j # e" by blast
  show ?thesis
  proof (cases y)
    case Nil
    with w isDirectChildLoop_below_tagged [OF assms(1-3), of "[]"] show ?thesis
      by (simp add: isDirectChild_def)
  next
    case (Cons a y')
    with w isDirectChildLoop_below_tagged [OF assms(1-3), of "y' @ [j]"] show ?thesis
      by (simp add: isDirectChild_def)
  qed
qed

lemma findChildComponents_eq:
  assumes "nodeAt body e = Some k"
  shows "findChildComponents body e =
           filter (isDirectChild body e) (walkChildren (tagAccept body) e 0 (childElements k))"
proof -
  have "walkChildren (\<lambda>node. if node = e then FILTER_SKIP
                   else if hasSourcePath body node then FILTER_ACCEPT
                   else FILTER_SKIP) e 0 (childElements k)
        = walkChildren (tagAccept body) e 0 (childElements k)"
    by (rule walk_cong(2)) (simp add: tagAccept_def)
  with assms show ?thesis
    by (simp add: findChildComponents_def treeWalkerNodes_def)
qed

lemma direct_children_cover:
  "f = tagAccept body \<Longrightarrow> nodeAt body e = Some k \<Longrightarrow>
     e = x @ r \<Longrightarrow> x \<noteq> [] \<Longrightarrow> isDirectChild body r e \<Longrightarrow>
     concat (map (traverseDepthFirst body) (filter (isDirectChild body r) (walkNode f e k)))
       = walkNode f e k"
  "f = tagAccept body \<Longrightarrow> nodeAt body p = Some n \<Longrightarrow> childElements n = pre @ cs \<Longrightarrow>
     length pre = i \<Longrightarrow> p = y @ r \<Longrightarrow> isDirectChildLoop body r p \<Longrightarrow>
     concat (map (traverseDepthFirst body) (filter (isDirectChild body r) (walkChildren f p i cs)))
       = walkChildren f p i cs"
proof (induction f e k and f p i cs arbitrary: x r and n pre y r rule: walkNode_walkChildren.induct)
  case (1 acceptNode e props cs)
  let ?W = "walkChildren acceptNode e 0 cs"
  have ce: "childElements (DomNode props cs) = [] @ cs" by simp
  from "1.prems"(3,4) have "e \<noteq> []" by simp
  then obtain i0 p0 where e: "e = i0 # p0" by (auto simp: neq_Nil_conv)
  from "1.prems"(3,4) have ner: "e \<noteq> r" by auto
  show ?case
  proof (cases "hasSourcePath body e")
    case True
    with "1.prems"(1) have acc: "acceptNode e = FILTER_ACCEPT" by (simp add: tagAccept_def)
    have none: "filter (isDirectChild body r) ?W = []"
      using not_direct_below_tagged [OF True "1.prems"(3,4)] by (auto simp: filter_empty_conv)
    have loop: "isDirectChildLoop body e e" using e by simp
    have "concat (map (traverseDepthFirst body) (filter (isDirectChild body e) ?W)) = ?W"
      by (rule "1.IH"(1) [OF acc "1.prems"(1,2) ce _ _ loop, of "[]"]) simp_all
    with findChildComponents_eq [OF "1.prems"(2)] "1.prems"(1)
    have "concat (map (traverseDepthFirst body) (findChildComponents body e)) = ?W"
      by simp
    with True have "traverseDepthFirst body e = e # ?W"
      by (subst traverseDepthFirst.simps) simp
    with acc none "1.prems"(5) show ?thesis by simp
  next
    case False
    with "1.prems"(1) have skip: "acceptNode e = FILTER_SKIP" by (simp add: tagAccept_def)
    from "1.prems"(5) e have "isDirectChildLoop body r p0" by (simp add: isDirectChild_def)
    with False ner e have loop: "isDirectChildLoop body r e" by simp
    have "concat (map (traverseDepthFirst body) (filter (isDirectChild body r) ?W)) = ?W"
      by (rule "1.IH"(2) [OF skip "1.prems"(1,2) ce _ "1.prems"(3) loop]) simp
    with skip show ?thesis by simp
  qed
next
  case (2 acceptNode p i)
  show ?case by simp
next
  case (3 acceptNode p i c' cs)
  from "3.prems"(3,4) have i: "i < length (childElements n)" and ci: "childElements n ! i = c'"
    by (auto simp: nth_append)
  from "3.prems"(2) i ci have at: "nodeAt body (i # p) = Some c'"
    by (simp add: nodeAt_child)
  have d: "isDirectChild body r (i # p)"
    using "3.prems"(6) by (simp add: isDirectChild_def)
  have sh: "i # p = (i # y) @ r" using "3.prems"(5) by simp
  have one: "concat (map (traverseDepthFirst body)
               (filter (isDirectChild body r) (walkNode acceptNode (i # p) c')))
             = walkNode acceptNode (i # p) c'"
    by (rule "3.IH"(1) [OF "3.prems"(1) at sh _ d]) simp
  from "3.prems"(3,4) have "childElements n = (pre @ [c']) @ cs" "length (pre @ [c']) = Suc i"
    by simp_all
  from "3.IH"(2) [OF "3.prems"(1,2) this "3.prems"(5,6)] one show ?case by simp
qed

lemma traverseDepthFirst_eq:
  assumes "nodeAt body e = Some k"
  shows "traverseDepthFirst body e =
           (if hasSourcePath body e then [e] else [])
           @ walkChildren (tagAccept body) e 0 (childElements k)"
proof -
  have loop: "isDirectChildLoop body e e" by (cases e) simp_all
  have "concat (map (traverseDepthFirst body)
          (filter (isDirectChild body e) (walkChildren (tagAccept body) e 0 (childElements k))))
        = walkChildren (tagAccept body) e 0 (childElements k)"
    by (rule direct_children_cover(2) [OF refl assms _ _ _ loop, where pre = "[]" and y = "[]"])
      simp_all
  with findChildComponents_eq [OF assms] show ?thesis
    by (subst traverseDepthFirst.simps) simp
qed


lemma findParentLoop_below_tagged:
  assumes "hasSourcePath body e" and "e \<noteq> []"
  shows "findParentLoop body (z @ e) \<noteq> None"
proof (induction z)
  case Nil
  from assms obtain i p where "e = i # p" by (auto simp: neq_Nil_conv)
  with assms(1) show ?case by simp
next
  case (Cons a z)
  then show ?case by simp
qed

lemma nothing_top_below_tagged:
  "f = topAccept body \<Longrightarrow> hasSourcePath body e \<Longrightarrow> e \<noteq> [] \<Longrightarrow> e' = z @ e \<Longrightarrow> z \<noteq> [] \<Longrightarrow>
     walkNode f e' k = []"
  "f = topAccept body \<Longrightarrow> hasSourcePath body e \<Longrightarrow> e \<noteq> [] \<Longrightarrow> p = z @ e \<Longrightarrow>
     walkChildren f p i cs = []"
proof (induction f e' k and f p i cs arbitrary: z and z rule: walkNode_walkChildren.induct)
  case (1 acceptNode e' props cs)
  from "1.prems"(4,5) obtain a z' where z: "z = a # z'" by (auto simp: neq_Nil_conv)
  with "1.prems"(4) have "findParentComponent body e' = findParentLoop body (z' @ e)"
    by (simp add: findParentComponent_def)
  with findParentLoop_below_tagged [OF "1.prems"(2,3)]
  have up: "findParentComponent body e' \<noteq> None" by simp
  show ?case
  proof (cases "hasSourcePath body e'")
    case True
    with up "1.prems"(1) show ?thesis by (simp add: topAccept_def)
  next
    case False
    with "1.prems"(1) have skip: "acceptNode e' = FILTER_SKIP" by (simp add: topAccept_def)
    from "1.IH"(2) [OF skip "1.prems"(1-4)] skip show ?thesis by simp
  qed
next
  case (2 acceptNode p i)
  show ?case by simp
next
  case (3 acceptNode p i c' cs)
  have "i # p = (i # z) @ e" using "3.prems"(4) by simp
  from "3.IH"(1) [OF "3.prems"(1-3) this] "3.IH"(2) [OF "3.prems"] show ?case by simp
qed

lemma top_level_cover:
  "f = topAccept body \<Longrightarrow> nodeAt body e = Some k \<Longrightarrow> e \<noteq> [] \<Longrightarrow>
     findParentComponent body e = None \<Longrightarrow>
     concat (map (traverseDepthFirst body) (walkNode f e k)) = walkNode (tagAccept body) e k"
  "f = topAccept body \<Longrightarrow> nodeAt body p = Some n \<Longrightarrow> childElements n = pre @ cs \<Longrightarrow>
     length pre = i \<Longrightarrow> findParentLoop body p = None \<Longrightarrow>
     concat (map (traverseDepthFirst body) (walkChildren f p i cs))
       = walkChildren (tagAccept body) p i cs"
proof (induction f e k and f p i cs arbitrary: and n pre rule: walkNode_walkChildren.induct)
  case (1 acceptNode e props cs)
  have ce: "childElements (DomNode props cs) = [] @ cs" by simp
  from "1.prems"(3) obtain i0 p0 where e: "e = i0 # p0" by (auto simp: neq_Nil_conv)
  show ?case
  proof (cases "hasSourcePath body e")
    case True
    with "1.prems"(1,4) have acc: "acceptNode e = FILTER_ACCEPT" by (simp add: topAccept_def)
    have "walkChildren acceptNode e 0 cs = []"
      by (rule nothing_top_below_tagged(2) [OF "1.prems"(1) True "1.prems"(3), of _ "[]"]) simp
    moreover from True have "tagAccept body e = FILTER_ACCEPT" by (simp add: tagAccept_def)
    ultimately show ?thesis
      using acc True traverseDepthFirst_eq [OF "1.prems"(2)] by simp
  next
    case False
    with "1.prems"(1) have skip: "acceptNode e = FILTER_SKIP" by (simp add: topAccept_def)
    from "1.prems"(4) e False have loop: "findParentLoop body e = None"
      by (simp add: findParentComponent_def)
    from False have "tagAccept body e = FILTER_SKIP" by (simp add: tagAccept_def)
    with "1.IH"(2) [OF skip "1.prems"(1,2) ce _ loop] skip show ?thesis
      by simp
  qed
next
  case (2 acceptNode p i)
  show ?case by simp
next
  case (3 acceptNode p i c' cs)
  from "3.prems"(3,4) have i: "i < length (childElements n)" and ci: "childElements n ! i = c'"
    by (auto simp: nth_append)
  from "3.prems"(2) i ci have at: "nodeAt body (i # p) = Some c'"
    by (simp add: nodeAt_child)
  have up: "findParentComponent body (i # p) = None"
    using "3.prems"(5) by (simp add: findParentComponent_def)
  have one: "concat (map (traverseDepthFirst body) (walkNode acceptNode (i # p) c'))
             = walkNode (tagAccept body) (i # p) c'"
    by (rule "3.IH"(1) [OF "3.prems"(1) at _ up]) simp
  from "3.prems"(3,4) have "childElements n = (pre @ [c']) @ cs" "length (pre @ [c']) = Suc i"
    by simp_all
  from "3.IH"(2) [OF "3.prems"(1,2) this "3.prems"(5)] one show ?case by simp
qed

lemma getAllComponentsInOrder_eq:
  "getAllComponentsInOrder body = walkChildren (tagAccept body) [] 0 (childElements body)"
proof -
  have at: "nodeAt body [] = Some body" by (simp add: nodeAt_def)
  have "(\<lambda>node. if hasSourcePath body node
                then (if findParentComponent body node \<noteq> None then FILTER_REJECT
                      else FILTER_ACCEPT)
                else FILTER_SKIP) = topAccept body"
    by (rule ext) (simp add: topAccept_def)
  then have top: "findTopLevelComponents body = walkChildren (topAccept body) [] 0 (childElements body)"
    by (simp add: findTopLevelComponents_def treeWalkerNodes_def at)
  show ?thesis
    unfolding getAllComponentsInOrder_def top
    by (rule top_level_cover(2) [OF refl at, where pre = "[]"]) simp_all
qed

lemma walk_accepted:
  "c \<in> set (walkNode f e k) \<Longrightarrow> f c = FILTER_ACCEPT"
  "c \<in> set (walkChildren f p i cs) \<Longrightarrow> f c = FILTER_ACCEPT"
proof (induction f e k and f p i cs rule: walkNode_walkChildren.induct)
  case (1 acceptNode e props cs)
  then show ?case by (cases "acceptNode e") auto
next
  case (2 acceptNode p i)
  then show ?case by simp
next
  case (3 acceptNode p i c' cs)
  then show ?case by auto
qed

lemma walkNode_in_children:
  "j < length cs \<Longrightarrow> set (walkNode f ((i + j) # p) (cs ! j)) \<subseteq> set (walkChildren f p i cs)"
proof (induction cs arbitrary: i j)
  case Nil
  then show ?case by simp
next
  case (Cons c cs)
  show ?case
  proof (cases j)
    case 0
    then show ?thesis by simp
  next
    case (Suc j')
    with Cons.prems have "j' < length cs" by simp
    from Cons.IH [OF this, of "Suc i"] Suc show ?thesis by auto
  qed
qed

lemma nodeAt_suffix:
  "nodeAt body (y @ q) \<noteq> None \<Longrightarrow> nodeAt body q \<noteq> None"
  by (auto simp: nodeAt_def descend_append split: option.splits)

lemma walk_reaches:
  assumes nr: "\<And>x. f x \<noteq> FILTER_REJECT"
  shows "nodeAt body p = Some n \<Longrightarrow> nodeAt body (x @ p) \<noteq> None \<Longrightarrow> x \<noteq> [] \<Longrightarrow>
     f (x @ p) = FILTER_ACCEPT \<Longrightarrow> x @ p \<in> set (walkChildren f p 0 (childElements n))"
proof (induction x arbitrary: p n rule: rev_induct)
  case Nil
  then show ?case by simp
next
  case (snoc j x')
  from snoc.prems(2) have "nodeAt body (x' @ j # p) \<noteq> None" by simp
  from nodeAt_suffix [OF this] have "nodeAt body (j # p) \<noteq> None" .
  with snoc.prems(1) have j: "j < length (childElements n)"
    and at: "nodeAt body (j # p) = Some (childElements n ! j)"
    by (auto simp: nodeAt_child split: if_splits)
  obtain props cs where c: "childElements n ! j = DomNode props cs"
    by (cases "childElements n ! j")
  from walkNode_in_children [OF j, of f 0 p]
  have sub: "set (walkNode f (j # p) (childElements n ! j))
               \<subseteq> set (walkChildren f p 0 (childElements n))"
    by simp
  show ?case
  proof (cases "x' = []")
    case True
    with snoc.prems(4) have "f (j # p) = FILTER_ACCEPT" by simp
    with c have "j # p \<in> set (walkNode f (j # p) (childElements n ! j))" by simp
    with sub True show ?thesis by auto
  next
    case False
    from snoc.prems(2,4) have "nodeAt body (x' @ j # p) \<noteq> None" "f (x' @ j # p) = FILTER_ACCEPT"
      by simp_all
    from snoc.IH [OF at this(1) False this(2)] c
    have "x' @ j # p \<in> set (walkChildren f (j # p) 0 cs)" by simp
    with c nr [of "j # p"] have "x' @ j # p \<in> set (walkNode f (j # p) (childElements n ! j))"
      by (cases "f (j # p)") auto
    with sub show ?thesis by auto
  qed
qed

lemma set_getAllComponentsInOrder:
  "set (getAllComponentsInOrder body) = {e. e \<noteq> [] \<and> hasSourcePath body e}"
proof (intro set_eqI iffI)
  fix e
  assume "e \<in> set (getAllComponentsInOrder body)"
  then have mem: "e \<in> set (walkChildren (tagAccept body) [] 0 (childElements body))"
    by (simp add: getAllComponentsInOrder_eq)
  from walk_shape(2) [OF mem] have "e \<noteq> []" by auto
  moreover from walk_accepted(2) [OF mem] have "hasSourcePath body e"
    by (simp add: tagAccept_def split: if_splits)
  ultimately show "e \<in> {e. e \<noteq> [] \<and> hasSourcePath body e}" by simp
next
  fix e
  assume "e \<in> {e. e \<noteq> [] \<and> hasSourcePath body e}"
  then have ne: "e \<noteq> []" and tg: "hasSourcePath body e" by simp_all
  from tg have valid: "nodeAt body (e @ []) \<noteq> None"
    by (auto simp: hasSourcePath_def split: option.splits)
  have at: "nodeAt body [] = Some body" by (simp add: nodeAt_def)
  have nr: "\<And>x. tagAccept body x \<noteq> FILTER_REJECT" by (simp add: tagAccept_def)
  from tg have acc: "tagAccept body (e @ []) = FILTER_ACCEPT" by (simp add: tagAccept_def)
  from walk_reaches [of "tagAccept body", OF nr at valid ne acc]
  show "e \<in> set (getAllComponentsInOrder body)"
    by (simp add: getAllComponentsInOrder_eq)
qed

lemma pathBefore_append_same: "pathBefore (q @ a) (q @ b) = pathBefore a b"
  by (induction q) auto

lemma pathBefore_irrefl: "\<not> pathBefore a a"
  by (induction a) auto

lemma pathBefore_asym: "pathBefore a b \<Longrightarrow> \<not> pathBefore b a"
  by (induction a b rule: pathBefore.induct) auto

lemma precedes_irrefl: "\<not> precedes a a"
  by (simp add: precedes_def pathBefore_irrefl)

lemma precedes_asym: "precedes a b \<Longrightarrow> \<not> precedes b a"
  by (simp add: precedes_def pathBefore_asym)

lemma precedes_descendant: "x \<noteq> [] \<Longrightarrow> precedes e (x @ e)"
proof -
  assume "x \<noteq> []"
  then obtain a y where "rev x = a # y" by (cases "rev x") auto
  then have "pathBefore (rev e @ []) (rev e @ rev x)"
    unfolding pathBefore_append_same by simp
  then show ?thesis by (simp add: precedes_def)
qed

lemma precedes_later_sibling: "i < j \<Longrightarrow> precedes (x @ i # p) (y @ j # p)"
proof -
  assume "i < j"
  then have "pathBefore (rev p @ i # rev x) (rev p @ j # rev y)"
    unfolding pathBefore_append_same by simp
  then show ?thesis by (simp add: precedes_def)
qed

lemma walk_sorted:
  "sorted_wrt precedes (walkNode f e k)"
  "sorted_wrt precedes (walkChildren f p i cs)"
proof (induction f e k and f p i cs rule: walkNode_walkChildren.induct)
  case (1 acceptNode e props cs)
  have first: "precedes e w" if "w \<in> set (walkChildren acceptNode e 0 cs)" for w
  proof -
    from walk_shape(2) [OF that] obtain x j where "w = (x @ [j]) @ e" by auto
    then show ?thesis using precedes_descendant [of "x @ [j]" e] by simp
  qed
  show ?case
  proof (cases "acceptNode e")
    case FILTER_ACCEPT
    with "1.IH"(1) first show ?thesis by simp
  next
    case FILTER_REJECT
    then show ?thesis by simp
  next
    case FILTER_SKIP
    with "1.IH"(2) show ?thesis by simp
  qed
next
  case (2 acceptNode p i)
  show ?case by simp
next
  case (3 acceptNode p i c' cs)
  have cross: "precedes a b"
    if "a \<in> set (walkNode acceptNode (i # p) c')"
      and "b \<in> set (walkChildren acceptNode p (Suc i) cs)" for a b
  proof -
    from walk_shape(1) [OF that(1)] obtain x where a: "a = x @ i # p" by blast
    from walk_shape(2) [OF that(2)] obtain y j where b: "b = y @ j # p" and "Suc i \<le> j" by blast
    then have "i < j" by simp
    from precedes_later_sibling [OF this] a b show ?thesis by simp
  qed
  from "3.IH" cross show ?case by (simp add: sorted_wrt_append)
qed

lemma sorted_wrt_precedes_distinct: "sorted_wrt precedes xs \<Longrightarrow> distinct xs"
  by (induction xs) (auto simp: precedes_irrefl)

lemma getAllComponentsInOrder_sorted: "sorted_wrt precedes (getAllComponentsInOrder body)"
  by (simp add: getAllComponentsInOrder_eq walk_sorted)

lemma treeWalkerNodes_distinct: "distinct (treeWalkerNodes body e f)"
  by (auto simp: treeWalkerNodes_def walk_sorted intro: sorted_wrt_precedes_distinct
      split: option.splits)

lemma findChildComponents_distinct: "distinct (findChildComponents body e)"
  by (simp add: findChildComponents_def treeWalkerNodes_distinct)

lemma findTopLevelComponents_distinct: "distinct (findTopLevelComponents body)"
  by (simp add: findTopLevelComponents_def treeWalkerNodes_distinct)


subsection \<open>Discovery returns exactly the elements with all three properties\<close>

lemma getAllComponents_elements:
  "map info_element (getAllComponents body) =
     filter (hasAllProperties body) (getAllComponentsInOrder body)"
proof -
  have "filter (\<lambda>x. truthy (getFilename body x) \<and> truthy (getSourceLine body x)
                   \<and> truthy (getSourcePath body x)) (getAllComponentsInOrder body)
        = filter (hasAllProperties body) (getAllComponentsInOrder body)"
    by (rule filter_cong) (auto simp: hasAllProperties_def)
  then show ?thesis
    by (simp add: getAllComponents_def comp_def filter_map)
qed

lemma truthy_Some: "truthy v \<Longrightarrow> \<exists>str. v = Some str \<and> str \<noteq> []"
  by (cases v) auto

lemma hasAllProperties_hasSourcePath: "hasAllProperties body e \<Longrightarrow> hasSourcePath body e"
  by (cases "nodeAt body e")
    (auto simp: hasAllProperties_def hasSourcePath_def getSourcePath_def dest: truthy_Some)

lemma getAllComponents_fields:
  assumes "c \<in> set (getAllComponents body)"
  shows "hasAllProperties body (info_element c)
       \<and> getSourcePath body (info_element c) = Some (info_path c) \<and> info_path c \<noteq> []
       \<and> getFilename body (info_element c) = Some (info_filename c) \<and> info_filename c \<noteq> []
       \<and> getSourceLine body (info_element c) = Some (info_line c) \<and> info_line c \<noteq> []"
proof -
  from assms obtain e where
    c: "c = \<lparr>info_element = e, info_filename = castString (getFilename body e),
            info_line = castString (getSourceLine body e),
            info_path = castString (getSourcePath body e)\<rparr>"
    and t: "truthy (getFilename body e)" "truthy (getSourceLine body e)" "truthy (getSourcePath body e)"
    by (auto simp: getAllComponents_def)
  from t obtain f l p where "getFilename body e = Some f" "f \<noteq> []"
    "getSourceLine body e = Some l" "l \<noteq> []" "getSourcePath body e = Some p" "p \<noteq> []"
    by (cases "getFilename body e"; cases "getSourceLine body e"; cases "getSourcePath body e") auto
  with c show ?thesis by (simp add: hasAllProperties_def)
qed

lemma examplePage_components:
  "getAllComponentsInOrder examplePage =
     [[0, 0], [0, 0, 0], [0, 0, 0, 0], [0, 1, 0, 0], [1], [2]]"
  by code_simp

lemma examplePage_discovered:
  "map info_element (getAllComponents examplePage) =
     [[0, 0], [0, 0, 0], [0, 0, 0, 0], [0, 1, 0, 0], [1]]"
  by code_simp

text \<open>
  C9. An element below \<open>document.body\<close> is among the components \<open>getAllComponents\<close>
  returns if and only if its source path, file name and source line are all present and
  not empty; and every returned component carries exactly these three values of its
  element, none of them empty. (\<open>document.body\<close> itself is the root of every walk and
  is never visited.)
\<close>

theorem discovery_iff_all_properties:
  "((e \<in> set (map info_element (getAllComponents body))) = (e \<noteq> [] \<and> hasAllProperties body e))
   \<and> (\<forall>c \<in> set (getAllComponents body).
        hasAllProperties body (info_element c)
        \<and> getSourcePath body (info_element c) = Some (info_path c) \<and> info_path c \<noteq> []
        \<and> getFilename body (info_element c) = Some (info_filename c) \<and> info_filename c \<noteq> []
        \<and> getSourceLine body (info_element c) = Some (info_line c) \<and> info_line c \<noteq> [])"
proof (intro conjI ballI)
  show "(e \<in> set (map info_element (getAllComponents body))) = (e \<noteq> [] \<and> hasAllProperties body e)"
    unfolding getAllComponents_elements
    using hasAllProperties_hasSourcePath [of body e]
    by (auto simp: set_getAllComponentsInOrder)
qed (use getAllComponents_fields in blast)+

text \<open>
  On the example page the second \<open>Card\<close> has all three properties and is discovered;
  the element with a source path only is not.
\<close>

theorem discovery_iff_all_properties_witness:
  "hasAllProperties examplePage [1]
   \<and> [1] \<in> set (map info_element (getAllComponents examplePage))
   \<and> hasSourcePath examplePage [2]
   \<and> \<not> hasAllProperties examplePage [2]
   \<and> [2] \<notin> set (map info_element (getAllComponents examplePage))"
proof -
  have a: "hasAllProperties examplePage [1]" by code_simp
  have b: "hasSourcePath examplePage [2]" by code_simp
  have c: "\<not> hasAllProperties examplePage [2]" by code_simp
  from a b c discovery_iff_all_properties [of "[1]" examplePage]
    discovery_iff_all_properties [of "[2]" examplePage]
  show ?thesis by simp
qed


subsection \<open>Keyboard traversal cycles\<close>

lemma arrayAt_nat: "k < length xs \<Longrightarrow> arrayAt xs (int k) = Some (xs ! k)"
  by (simp add: arrayAt_def)

lemma indexOf_nth: "distinct xs \<Longrightarrow> k < length xs \<Longrightarrow> indexOf xs (xs ! k) = int k"
  using indexOfFrom_nth [of xs k 0] by (simp add: indexOf_def)

lemma getNextSibling_at:
  assumes "distinct sibs" and "i < length sibs"
  shows "getNextSibling (sibs ! i) sibs = Some (sibs ! ((i + 1) mod length sibs))"
proof -
  have "js_rem (int i + 1) (int (length sibs)) = int ((i + 1) mod length sibs)"
    by (simp add: js_rem_def zmod_int add.commute)
  moreover from assms(2) have pos: "0 < length sibs" by auto
  then have "(i + 1) mod length sibs < length sibs" by (rule mod_less_divisor)
  ultimately show ?thesis
    using assms pos
    by (simp add: getNextSibling_def indexOf_nth Let_def arrayAt_nat del: of_nat_Suc of_nat_add)
qed

lemma getPreviousSibling_at:
  assumes "distinct sibs" and "i < length sibs"
  shows "getPreviousSibling (sibs ! i) sibs = Some (sibs ! ((i + length sibs - 1) mod length sibs))"
proof -
  have "int i - 1 + int (length sibs) = int (i + length sibs - 1)"
    using assms(2) by linarith
  then have "js_rem (int i - 1 + int (length sibs)) (int (length sibs))
               = int ((i + length sibs - 1) mod length sibs)"
    by (simp add: js_rem_def zmod_int del: of_nat_add)
  moreover from assms(2) have pos: "0 < length sibs" by auto
  then have "(i + length sibs - 1) mod length sibs < length sibs" by (rule mod_less_divisor)
  ultimately show ?thesis
    using assms pos by (simp add: getPreviousSibling_def indexOf_nth Let_def arrayAt_nat del: of_nat_add)
qed

lemma getAllSiblings_distinct: "distinct (getAllSiblingsIncludingCurrent body cur)"
  by (simp add: getAllSiblingsIncludingCurrent_def findChildComponents_distinct
      findTopLevelComponents_distinct split: option.splits)

text \<open>
  C3. For a current element that is a component without a parent component, Up yields
  the last element of \<open>getAllComponentsInOrder\<close>; for one without child components,
  Down yields the first. For a current element at index \<open>i\<close> of its sibling list of
  length \<open>n\<close>, Right yields the sibling at index \<open>(i + 1) mod n\<close> and Left the one at
  \<open>(i - 1 + n) mod n\<close>. \<open>getAllComponentsInOrder\<close> is the full depth-first order: it
  holds exactly the elements below \<open>document.body\<close> that have a source path, in
  document order.
\<close>

theorem keyboard_cycling:
  "(cur \<noteq> [] \<and> hasSourcePath body cur \<and> findParentComponent body cur = None
      \<longrightarrow> navigateToParent body (Some cur) = Some (last (getAllComponentsInOrder body)))
   \<and> (cur \<noteq> [] \<and> hasSourcePath body cur \<and> findChildComponents body cur = []
      \<longrightarrow> navigateToFirstChild body (Some cur) = Some (hd (getAllComponentsInOrder body)))
   \<and> (i < length (getAllSiblingsIncludingCurrent body cur)
        \<and> getAllSiblingsIncludingCurrent body cur ! i = cur
      \<longrightarrow> navigateToNextSibling body (Some cur) =
            Some (getAllSiblingsIncludingCurrent body cur !
                    ((i + 1) mod length (getAllSiblingsIncludingCurrent body cur)))
        \<and> navigateToPreviousSibling body (Some cur) =
            Some (getAllSiblingsIncludingCurrent body cur !
                    ((i + length (getAllSiblingsIncludingCurrent body cur) - 1)
                       mod length (getAllSiblingsIncludingCurrent body cur))))
   \<and> set (getAllComponentsInOrder body) = {e. e \<noteq> [] \<and> hasSourcePath body e}
   \<and> sorted_wrt precedes (getAllComponentsInOrder body)"
proof (intro conjI impI)
  assume a: "cur \<noteq> [] \<and> hasSourcePath body cur \<and> findParentComponent body cur = None"
  then have "cur \<in> set (getAllComponentsInOrder body)" by (simp add: set_getAllComponentsInOrder)
  then have ne: "getAllComponentsInOrder body \<noteq> []" by auto
  then have "arrayAt (getAllComponentsInOrder body) (int (length (getAllComponentsInOrder body)) - 1)
            = Some (last (getAllComponentsInOrder body))"
    by (simp add: arrayAt_def last_conv_nth nat_diff_distrib')
  with a ne show "navigateToParent body (Some cur) = Some (last (getAllComponentsInOrder body))"
    by (simp add: navigateToParent_def findDeepestComponent_def Let_def)
next
  assume a: "cur \<noteq> [] \<and> hasSourcePath body cur \<and> findChildComponents body cur = []"
  then have "cur \<in> set (getAllComponentsInOrder body)" by (simp add: set_getAllComponentsInOrder)
  then have ne: "getAllComponentsInOrder body \<noteq> []" by auto
  then have "arrayAt (getAllComponentsInOrder body) 0 = Some (hd (getAllComponentsInOrder body))"
    by (simp add: arrayAt_def hd_conv_nth)
  with a ne show "navigateToFirstChild body (Some cur) = Some (hd (getAllComponentsInOrder body))"
    by (simp add: navigateToFirstChild_def findFirstComponent_def Let_def)
next
  assume a: "i < length (getAllSiblingsIncludingCurrent body cur)
        \<and> getAllSiblingsIncludingCurrent body cur ! i = cur"
  with getNextSibling_at [OF getAllSiblings_distinct, of i body cur]
  show "navigateToNextSibling body (Some cur) =
            Some (getAllSiblingsIncludingCurrent body cur !
                    ((i + 1) mod length (getAllSiblingsIncludingCurrent body cur)))"
    by (simp add: navigateToNextSibling_def)
  from a getPreviousSibling_at [OF getAllSiblings_distinct, of i body cur]
  show "navigateToPreviousSibling body (Some cur) =
            Some (getAllSiblingsIncludingCurrent body cur !
                    ((i + length (getAllSiblingsIncludingCurrent body cur) - 1)
                       mod length (getAllSiblingsIncludingCurrent body cur)))"
    by (simp add: navigateToPreviousSibling_def)
qed (simp_all add: set_getAllComponentsInOrder getAllComponentsInOrder_sorted)

text \<open>
  On the example page the top-level components are \<open>App\<close>, \<open>Card\<close> and the element
  with a source path only. \<open>App\<close> is a root and the last top-level element is a leaf;
  Right from the last sibling and Left from the first one wrap around.
\<close>

lemma examplePage_siblings:
  "getAllSiblingsIncludingCurrent examplePage [2] = [[0, 0], [1], [2]]"
  "getAllSiblingsIncludingCurrent examplePage [0, 0] = [[0, 0], [1], [2]]"
  by code_simp+

theorem keyboard_cycling_witness:
  "navigateToParent examplePage (Some [0, 0]) = Some [2]
   \<and> navigateToFirstChild examplePage (Some [2]) = Some [0, 0]
   \<and> navigateToNextSibling examplePage (Some [0, 0]) = Some [1]
   \<and> navigateToNextSibling examplePage (Some [2]) = Some [0, 0]
   \<and> navigateToPreviousSibling examplePage (Some [0, 0]) = Some [2]
   \<and> navigateToPreviousSibling examplePage (Some [2]) = Some [1]"
proof -
  have tag: "hasSourcePath examplePage [0, 0]" "hasSourcePath examplePage [2]"
    by code_simp+
  have root: "findParentComponent examplePage [0, 0] = None" by code_simp
  have leaf: "findChildComponents examplePage [2] = []" by code_simp
  from keyboard_cycling [of "[0, 0]" examplePage 0] tag root
  have "navigateToParent examplePage (Some [0, 0]) = Some [2]"
    and "navigateToNextSibling examplePage (Some [0, 0]) = Some [1]"
    and "navigateToPreviousSibling examplePage (Some [0, 0]) = Some [2]"
    by (simp_all add: examplePage_components examplePage_siblings)
  moreover from keyboard_cycling [of "[2]" examplePage 2] tag leaf
  have "navigateToFirstChild examplePage (Some [2]) = Some [0, 0]"
    and "navigateToNextSibling examplePage (Some [2]) = Some [0, 0]"
    and "navigateToPreviousSibling examplePage (Some [2]) = Some [1]"
    by (simp_all add: examplePage_components examplePage_siblings)
  ultimately show ?thesis by simp
qed


subsection \<open>The hierarchy built from a list of components\<close>

text \<open>
  The first loop: one node per component, still without links, and a node map that
  sends the element of each component to its node when the elements are distinct.
\<close>

lemma updateNode_simps:
  "nodes (updateNode a f h) = (nodes h)[a := f (nodes h ! a)]"
  "nodeMap (updateNode a f h) = nodeMap h"
  "rootNodes (updateNode a f h) = rootNodes h"
  by (simp_all add: updateNode_def)

lemma createNodes_rootNodes: "rootNodes (createNodes cs i h) = rootNodes h"
  by (induction cs arbitrary: i h) simp_all

lemma createNodes_length: "length (nodes (createNodes cs i h)) = length (nodes h) + length cs"
  by (induction cs arbitrary: i h) simp_all

lemma createNodes_old: "a < length (nodes h) \<Longrightarrow> nodes (createNodes cs i h) ! a = nodes h ! a"
  by (induction cs arbitrary: i h) (simp_all add: nth_append)

lemma createNodes_new:
  "j < length cs \<Longrightarrow>
     element (nodes (createNodes cs i h) ! (length (nodes h) + j)) = info_element (cs ! j)
     \<and> children (nodes (createNodes cs i h) ! (length (nodes h) + j)) = []
     \<and> parent (nodes (createNodes cs i h) ! (length (nodes h) + j)) = None
     \<and> level (nodes (createNodes cs i h) ! (length (nodes h) + j)) = 0"
proof (induction cs arbitrary: i h j)
  case Nil
  then show ?case by simp
next
  case (Cons c cs)
  show ?case
  proof (cases j)
    case 0
    then show ?thesis by (simp add: createNodes_old)
  next
    case (Suc j')
    with Cons.prems have j': "j' < length cs" by simp
    define h' where "h' = h\<lparr>nodes := nodes h @
              [\<lparr>nodeId = ''node-'' @ showNat i,
                element = info_element c,
                filename = info_filename c,
                line = info_line c,
                path = info_path c,
                children = [],
                parent = None,
                expanded = False,
                level = 0\<rparr>],
          nodeMap := (nodeMap h)(info_element c \<mapsto> length (nodes h))\<rparr>"
    have eq: "createNodes (c # cs) i h = createNodes cs (Suc i) h'"
      by (simp add: h'_def)
    have len: "length (nodes h') + j' = length (nodes h) + j"
      by (simp add: h'_def Suc)
    from Cons.IH [OF j', of "Suc i" h'] show ?thesis
      unfolding eq len by (simp add: Suc)
  qed
qed

lemma createNodes_nodeMap_other:
  "e \<notin> info_element ` set cs \<Longrightarrow> nodeMap (createNodes cs i h) e = nodeMap h e"
  by (induction cs arbitrary: i h) auto

lemma createNodes_nodeMap:
  "distinct (map info_element cs) \<Longrightarrow> j < length cs \<Longrightarrow>
     nodeMap (createNodes cs i h) (info_element (cs ! j)) = Some (length (nodes h) + j)"
proof (induction cs arbitrary: i h j)
  case Nil
  then show ?case by simp
next
  case (Cons c cs)
  show ?case
  proof (cases j)
    case 0
    with Cons.prems show ?thesis by (simp add: createNodes_nodeMap_other)
  next
    case (Suc j')
    with Cons.prems have j': "j' < length cs" and d: "distinct (map info_element cs)"
      by simp_all
    define h' where "h' = h\<lparr>nodes := nodes h @
              [\<lparr>nodeId = ''node-'' @ showNat i,
                element = info_element c,
                filename = info_filename c,
                line = info_line c,
                path = info_path c,
                children = [],
                parent = None,
                expanded = False,
                level = 0\<rparr>],
          nodeMap := (nodeMap h)(info_element c \<mapsto> length (nodes h))\<rparr>"
    have eq: "createNodes (c # cs) i h = createNodes cs (Suc i) h'"
      by (simp add: h'_def)
    have len: "length (nodes h') + j' = length (nodes h) + j"
      by (simp add: h'_def Suc)
    from Cons.IH [OF d j', of "Suc i" h'] show ?thesis
      unfolding eq len by (simp add: Suc)
  qed
qed

lemma createNodes_linked:
  assumes "distinct (map info_element cs)"
  defines "h0 \<equiv> createNodes cs 0 \<lparr>nodes = [], nodeMap = Map.empty, rootNodes = []\<rparr>"
  shows "linkedUpTo body (map info_element cs) (nodeMap h0) 0 h0"
    and "\<forall>a < length cs. nodeMap h0 (map info_element cs ! a) = Some a"
    and "\<forall>e p. nodeMap h0 e = Some p \<longrightarrow> p < length cs \<and> map info_element cs ! p = e"
proof -
  let ?e = "\<lparr>nodes = [], nodeMap = Map.empty, rootNodes = []\<rparr>"
  have new: "j < length cs \<Longrightarrow>
     element (nodes h0 ! j) = info_element (cs ! j) \<and> children (nodes h0 ! j) = []
     \<and> parent (nodes h0 ! j) = None \<and> level (nodes h0 ! j) = 0" for j
    using createNodes_new [of j cs 0 ?e] by (simp add: h0_def)
  show "linkedUpTo body (map info_element cs) (nodeMap h0) 0 h0"
    using new by (simp add: linkedUpTo_def h0_def createNodes_length createNodes_rootNodes)
  show m: "\<forall>a < length cs. nodeMap h0 (map info_element cs ! a) = Some a"
    using createNodes_nodeMap [OF assms(1), of _ 0 ?e] by (simp add: h0_def)
  show "\<forall>e p. nodeMap h0 e = Some p \<longrightarrow> p < length cs \<and> map info_element cs ! p = e"
  proof (intro allI impI)
    fix e p
    assume ep: "nodeMap h0 e = Some p"
    have "e \<in> info_element ` set cs"
    proof (rule ccontr)
      assume "e \<notin> info_element ` set cs"
      from createNodes_nodeMap_other [OF this, of 0 ?e] ep show False by (simp add: h0_def)
    qed
    then obtain j where j: "j < length cs" "info_element (cs ! j) = e"
      by (auto simp: in_set_conv_nth)
    with m ep have "p = j" by auto
    with j show "p < length cs \<and> map info_element cs ! p = e" by simp
  qed
qed




text \<open>
  Document order is a strict total order on elements, and the comparator of
  \<open>sortNodesByDOMOrder\<close> decides it: on two nodes with different elements it is
  negative exactly when the first element comes first.
\<close>

lemma isAncestor_precedes: "isAncestor x y \<Longrightarrow> precedes x y"
proof -
  assume a: "isAncestor x y"
  then have "y = take (length y - length x) y @ x" and "take (length y - length x) y \<noteq> []"
    by (auto simp: isAncestor_def) (metis append_take_drop_id)
  then show ?thesis using precedes_descendant by metis
qed

lemma compareNodes_precedes:
  assumes "precedes (element (nodes h ! a)) (element (nodes h ! b))"
  shows "compareNodes h a b \<le> 0"
proof -
  let ?x = "element (nodes h ! a)" and ?y = "element (nodes h ! b)"
  from assms precedes_irrefl have ne: "?x \<noteq> ?y" by auto
  from assms precedes_asym have nb: "\<not> precedes ?y ?x" by blast
  with isAncestor_precedes have na: "\<not> isAncestor ?y ?x" by blast
  have "compareDocumentPosition ?x ?y = 20 \<or> compareDocumentPosition ?x ?y = 4"
    using ne nb na by (simp add: compareDocumentPosition_def)
  then have "compareDocumentPosition ?x ?y AND DOCUMENT_POSITION_FOLLOWING \<noteq> 0"
    by (auto simp: DOCUMENT_POSITION_FOLLOWING_def)
  then show ?thesis by (simp add: compareNodes_def Let_def)
qed

lemma pathBefore_trans: "pathBefore a b \<Longrightarrow> pathBefore b c \<Longrightarrow> pathBefore a c"
proof (induction a b arbitrary: c rule: pathBefore.induct)
  case 1 then show ?case by simp
next
  case (2 j q) then show ?case by (cases c) auto
next
  case (3 i p) then show ?case by simp
next
  case (4 i p j q)
  then show ?case by (cases c) auto
qed

lemma pathBefore_total: "a \<noteq> b \<Longrightarrow> pathBefore a b \<or> pathBefore b a"
  by (induction a b rule: pathBefore.induct) auto

lemma precedes_trans: "precedes a b \<Longrightarrow> precedes b c \<Longrightarrow> precedes a c"
  unfolding precedes_def by (rule pathBefore_trans)

lemma precedes_total: "a \<noteq> b \<Longrightarrow> precedes a b \<or> precedes b a"
  unfolding precedes_def by (rule pathBefore_total) simp

lemma compareNodes_le_iff:
  assumes ne: "element (nodes h ! a) \<noteq> element (nodes h ! b)"
  shows "(compareNodes h a b \<le> 0) = precedes (element (nodes h ! a)) (element (nodes h ! b))"
proof
  assume "precedes (element (nodes h ! a)) (element (nodes h ! b))"
  then show "compareNodes h a b \<le> 0" by (rule compareNodes_precedes)
next
  let ?x = "element (nodes h ! a)" and ?y = "element (nodes h ! b)"
  assume le: "compareNodes h a b \<le> 0"
  show "precedes ?x ?y"
  proof (rule ccontr)
    assume "\<not> precedes ?x ?y"
    with precedes_total [OF ne] have yx: "precedes ?y ?x" by blast
    with isAncestor_precedes [of ?x ?y] precedes_asym have na: "\<not> isAncestor ?x ?y" by blast
    have "compareDocumentPosition ?x ?y = 10 \<or> compareDocumentPosition ?x ?y = 2"
      using ne na yx by (simp add: compareDocumentPosition_def)
    then have "compareDocumentPosition ?x ?y AND DOCUMENT_POSITION_FOLLOWING = 0
       \<and> compareDocumentPosition ?x ?y AND DOCUMENT_POSITION_PRECEDING \<noteq> 0"
      by (auto simp: DOCUMENT_POSITION_FOLLOWING_def DOCUMENT_POSITION_PRECEDING_def)
    then have "compareNodes h a b = 1" by (simp add: compareNodes_def Let_def)
    with le show False by simp
  qed
qed

text \<open>
  \<open>Array.prototype.sort\<close>: the sorted array holds the same entries, and it is in
  order when the comparator decides a strict total order on them.
\<close>

lemma set_insertSorted: "set (insertSorted cmp x ys) = insert x (set ys)"
  by (induction ys) auto

lemma set_arraySort: "set (arraySort cmp xs) = set xs"
  by (induction xs) (simp_all add: arraySort_def set_insertSorted)

lemma length_insertSorted: "length (insertSorted cmp x ys) = Suc (length ys)"
  by (induction ys) auto

lemma length_arraySort: "length (arraySort cmp xs) = length xs"
  by (induction xs) (simp_all add: arraySort_def length_insertSorted)

lemma insertSorted_cong:
  "(\<And>y. y \<in> set ys \<Longrightarrow> cmp x y = cmp' x y) \<Longrightarrow> insertSorted cmp x ys = insertSorted cmp' x ys"
  by (induction ys) auto

lemma arraySort_cong:
  "(\<And>x y. x \<in> set xs \<Longrightarrow> y \<in> set xs \<Longrightarrow> cmp x y = cmp' x y) \<Longrightarrow>
     arraySort cmp xs = arraySort cmp' xs"
proof (induction xs)
  case Nil
  show ?case by (simp add: arraySort_def)
next
  case (Cons x xs)
  then have eq: "arraySort cmp xs = arraySort cmp' xs" by simp
  have "insertSorted cmp x (arraySort cmp' xs) = insertSorted cmp' x (arraySort cmp' xs)"
    by (rule insertSorted_cong) (simp add: set_arraySort Cons.prems)
  with eq show ?case by (simp add: arraySort_def)
qed

lemma insertSorted_sorted:
  assumes tr: "\<And>a b c. R a b \<Longrightarrow> R b c \<Longrightarrow> R a c"
    and le: "\<And>y. y \<in> set ys \<Longrightarrow> (cmp x y \<le> 0) = R x y"
    and tot: "\<And>y. y \<in> set ys \<Longrightarrow> R x y \<or> R y x"
  shows "sorted_wrt R ys \<Longrightarrow> sorted_wrt R (insertSorted cmp x ys)"
  using le tot
proof (induction ys)
  case Nil
  show ?case by simp
next
  case (Cons y ys)
  show ?case
  proof (cases "cmp x y \<le> 0")
    case True
    with Cons.prems(2) have xy: "R x y" by simp
    with Cons.prems(1) tr have "\<forall>z \<in> set ys. R x z" by auto
    with True xy Cons.prems(1) show ?thesis by simp
  next
    case False
    with Cons.prems(2,3) have yx: "R y x" by auto
    from Cons.prems have "sorted_wrt R (insertSorted cmp x ys)"
      by (intro Cons.IH) simp_all
    with False yx Cons.prems(1) show ?thesis by (simp add: set_insertSorted)
  qed
qed

lemma arraySort_sorts:
  assumes tr: "\<And>a b c. R a b \<Longrightarrow> R b c \<Longrightarrow> R a c"
    and le: "\<And>x y. x \<in> set xs \<Longrightarrow> y \<in> set xs \<Longrightarrow> x \<noteq> y \<Longrightarrow> (cmp x y \<le> 0) = R x y"
    and tot: "\<And>x y. x \<in> set xs \<Longrightarrow> y \<in> set xs \<Longrightarrow> x \<noteq> y \<Longrightarrow> R x y \<or> R y x"
  shows "distinct xs \<Longrightarrow> sorted_wrt R (arraySort cmp xs)"
  using le tot
proof (induction xs)
  case Nil
  show ?case by (simp add: arraySort_def)
next
  case (Cons x xs)
  from Cons.prems have s: "sorted_wrt R (arraySort cmp xs)"
    by (intro Cons.IH) simp_all
  have "sorted_wrt R (insertSorted cmp x (arraySort cmp xs))"
  proof (rule insertSorted_sorted [OF tr _ _ s])
    fix y assume "y \<in> set (arraySort cmp xs)"
    then have y: "y \<in> set xs" by (simp add: set_arraySort)
    with Cons.prems(1) have "x \<noteq> y" by auto
    with y Cons.prems(2) [of x y] Cons.prems(3) [of x y]
    show "(cmp x y \<le> 0) = R x y" "R x y \<or> R y x" by simp_all
  qed
  then show ?case by (simp add: arraySort_def)
qed

text \<open>
  What \<open>findParentComponent\<close> returns is a proper ancestor, and when it is inspectable
  it is the nearest inspectable ancestor.
\<close>

lemma findParentLoop_shape:
  "findParentLoop body q = Some pe \<Longrightarrow> \<exists>x. q = x @ pe \<and> pe \<noteq> [] \<and> hasSourcePath body pe"
proof (induction q)
  case Nil
  then show ?case by simp
next
  case (Cons i q)
  show ?case
  proof (cases "hasSourcePath body (i # q)")
    case True
    with Cons.prems have "pe = i # q" by simp
    with True show ?thesis by auto
  next
    case False
    with Cons.prems have "findParentLoop body q = Some pe" by simp
    from Cons.IH [OF this] obtain x where "q = x @ pe" "pe \<noteq> []" "hasSourcePath body pe"
      by blast
    then have "i # q = (i # x) @ pe" by simp
    with \<open>pe \<noteq> []\<close> \<open>hasSourcePath body pe\<close> show ?thesis by blast
  qed
qed

lemma findParentComponent_precedes:
  assumes "findParentComponent body e = Some pe"
  shows "precedes pe e"
proof -
  from assms obtain i q where e: "e = i # q" and l: "findParentLoop body q = Some pe"
    by (cases e) (auto simp: findParentComponent_def)
  from findParentLoop_shape [OF l] obtain x where "q = x @ pe" by blast
  with e have "e = (i # x) @ pe" by simp
  then show ?thesis using precedes_descendant [of "i # x" pe] by simp
qed

lemma nearestInspectable_of_parent:
  assumes "findParentComponent body e = Some pe" and "hasAllProperties body pe"
  shows "nearestInspectableAncestor body e = Some pe"
proof -
  from assms(1) obtain i q where e: "e = i # q" and l: "findParentLoop body q = Some pe"
    by (cases e) (auto simp: findParentComponent_def)
  from l have "nearestInspectableFrom body q = Some pe"
  proof (induction q)
    case Nil
    then show ?case by simp
  next
    case (Cons j q)
    show ?case
    proof (cases "hasSourcePath body (j # q)")
      case True
      with Cons.prems have "pe = j # q" by simp
      with assms(2) show ?thesis by simp
    next
      case False
      with hasAllProperties_hasSourcePath [of body "j # q"]
      have "\<not> hasAllProperties body (j # q)" by blast
      moreover from False Cons.prems have "findParentLoop body q = Some pe" by simp
      ultimately show ?thesis using Cons.IH by simp
    qed
  qed
  with e show ?thesis by (simp add: nearestInspectableAncestor_def)
qed


lemma isAncestor_append: "x \<noteq> [] \<Longrightarrow> isAncestor e (x @ e)"
  by (cases x) (simp_all add: isAncestor_def)

lemma isAncestor_shape: "isAncestor x y \<Longrightarrow> \<exists>w. w \<noteq> [] \<and> y = w @ x"
proof -
  assume a: "isAncestor x y"
  then have "y = take (length y - length x) y @ x" and "take (length y - length x) y \<noteq> []"
    by (auto simp: isAncestor_def) (metis append_take_drop_id)
  then show ?thesis by blast
qed

lemma isAncestor_trans:
  assumes xy: "isAncestor x y" and yz: "isAncestor y z"
  shows "isAncestor x z"
proof -
  from isAncestor_shape [OF xy] obtain w where w: "w \<noteq> []" "y = w @ x" by blast
  from isAncestor_shape [OF yz] obtain v where v: "v \<noteq> []" "z = v @ y" by blast
  from w v have z: "z = (v @ w) @ x" and ne: "v @ w \<noteq> []" by simp_all
  from isAncestor_append [OF ne, of x] show ?thesis unfolding z .
qed

lemma isAncestor_irrefl: "\<not> isAncestor x x"
  by (simp add: isAncestor_def)

lemma findParentComponent_above:
  assumes "findParentComponent body e = Some pe"
  shows "isAncestor pe e"
proof -
  from assms obtain i q where e: "e = i # q" and l: "findParentLoop body q = Some pe"
    by (cases e) (auto simp: findParentComponent_def)
  from findParentLoop_shape [OF l] obtain x where "q = x @ pe" by blast
  with e have "e = (i # x) @ pe" by simp
  then show ?thesis using isAncestor_append [of "i # x" pe] by simp
qed


text \<open>The second loop keeps \<open>linkedUpTo\<close>, in whatever order the components come.\<close>

lemma linkNode_root_step:
  assumes inv: "linkedUpTo body es M k h" and k: "k < length es"
    and Mk: "M (es ! k) = Some k" and c: "info_element c = es ! k"
    and P: "parentAddr body M (es ! k) = None"
  shows "\<exists>h'. linkNode body c h = Inr h' \<and> linkedUpTo body es M (Suc k) h'"
proof -
  from inv have nm: "nodeMap h = M" by (simp add: linkedUpTo_def)
  from P have ln: "linkNode body c h = Inr (h\<lparr>rootNodes := rootNodes h @ [k]\<rparr>)"
    by (auto simp: linkNode_def nm Mk c parentAddr_def split: option.splits)
  have "linkedUpTo body es M (Suc k) (h\<lparr>rootNodes := rootNodes h @ [k]\<rparr>)"
    using inv P by (auto simp: linkedUpTo_def less_Suc_eq split: option.splits)
  with ln show ?thesis by blast
qed

lemma parentAddr_other:
  assumes wf: "\<And>e p. M e = Some p \<Longrightarrow> p < length es \<and> es ! p = e"
    and P: "parentAddr body M (es ! a) = Some p"
  shows "p < length es \<and> p \<noteq> a \<and> isAncestor (es ! p) (es ! a)
         \<and> findParentComponent body (es ! a) = Some (es ! p)"
proof -
  from P obtain pe where fp: "findParentComponent body (es ! a) = Some pe" and Mp: "M pe = Some p"
    by (auto simp: parentAddr_def split: option.splits)
  from wf [OF Mp] have p: "p < length es" and pe: "es ! p = pe" by simp_all
  from findParentComponent_above [OF fp] pe have anc: "isAncestor (es ! p) (es ! a)" by simp
  then have "es ! p \<noteq> es ! a" by (auto simp: isAncestor_def)
  then have "p \<noteq> a" by auto
  with p anc fp pe show ?thesis by simp
qed

lemma linkNode_child_step:
  assumes inv: "linkedUpTo body es M k h" and k: "k < length es"
    and Mk: "M (es ! k) = Some k" and c: "info_element c = es ! k"
    and P: "parentAddr body M (es ! k) = Some p"
    and wf: "\<And>e p. M e = Some p \<Longrightarrow> p < length es \<and> es ! p = e"
  shows "\<exists>h'. linkNode body c h = Inr h' \<and> linkedUpTo body es M (Suc k) h'"
proof -
  from inv have nm: "nodeMap h = M" and len: "length (nodes h) = length es"
    and roots: "rootNodes h = filter (\<lambda>c. parentAddr body M (es ! c) = None) [0 ..< k]"
    by (simp_all add: linkedUpTo_def)
  from inv have pt: "element (nodes h ! a) = es ! a
            \<and> children (nodes h ! a) = filter (\<lambda>c. parentAddr body M (es ! c) = Some a) [0 ..< k]
            \<and> parent (nodes h ! a) = (if a < k then parentAddr body M (es ! a) else None)
            \<and> level (nodes h ! a) =
                (if a < k
                 then (case parentAddr body M (es ! a) of
                         None \<Rightarrow> 0
                       | Some p \<Rightarrow> (if p < a then level (nodes h ! p) else 0) + 1)
                 else 0)" if "a < length es" for a
    using that by (simp add: linkedUpTo_def)
  from parentAddr_other [OF wf P] have pn: "p < length es" and pne: "p \<noteq> k" by simp_all
  define nk where "nk = (nodes h ! k)\<lparr>parent := Some p, level := level (nodes h ! p) + 1\<rparr>"
  define np where "np = (nodes h ! p)\<lparr>children := children (nodes h ! p) @ [k]\<rparr>"
  define h3 where "h3 = h\<lparr>nodes := (nodes h)[k := nk, p := np]\<rparr>"
  from P obtain pe where fp: "findParentComponent body (es ! k) = Some pe" and Mp: "M pe = Some p"
    by (auto simp: parentAddr_def split: option.splits)
  have ln: "linkNode body c h = Inr h3"
    using pne k pn len
    by (simp add: linkNode_def nm Mk c fp Mp Let_def updateNode_def h3_def nk_def np_def)
  have n3: "nodes h3 ! a = (if a = p then np else if a = k then nk else nodes h ! a)"
    if "a < length es" for a
    using that len pne by (simp add: h3_def nth_list_update)
  have lev: "level (nodes h3 ! a) = (if a = k then level (nodes h ! p) + 1 else level (nodes h ! a))"
    if "a < length es" for a
    using that pne by (simp add: n3 np_def nk_def)
  have "linkedUpTo body es M (Suc k) h3"
    unfolding linkedUpTo_def
  proof (intro conjI allI impI)
    show "length (nodes h3) = length es" by (simp add: h3_def len)
    show "nodeMap h3 = M" by (simp add: h3_def nm)
    show "rootNodes h3 = filter (\<lambda>c. parentAddr body M (es ! c) = None) [0 ..< Suc k]"
      using P by (simp add: h3_def roots)
  next
    fix a assume a: "a < length es"
    show "element (nodes h3 ! a) = es ! a"
      using pt [OF a] pt [OF k] pt [OF pn] by (simp add: n3 [OF a] np_def nk_def)
    show "children (nodes h3 ! a) = filter (\<lambda>c. parentAddr body M (es ! c) = Some a) [0 ..< Suc k]"
      using pt [OF a] pt [OF k] pt [OF pn] P pne by (auto simp: n3 [OF a] np_def nk_def)
    show "parent (nodes h3 ! a) = (if a < Suc k then parentAddr body M (es ! a) else None)"
      using pt [OF a] pt [OF k] pt [OF pn] P pne
      by (auto simp: n3 [OF a] np_def nk_def less_Suc_eq)
    show "level (nodes h3 ! a) =
                (if a < Suc k
                 then (case parentAddr body M (es ! a) of
                         None \<Rightarrow> 0
                       | Some p \<Rightarrow> (if p < a then level (nodes h3 ! p) else 0) + 1)
                 else 0)"
    proof (cases "a = k")
      case True
      show ?thesis
      proof (cases "p < k")
        case True
        with \<open>a = k\<close> P pn pne show ?thesis by (simp add: lev [OF k] lev [OF pn])
      next
        case False
        with pt [OF pn] have "level (nodes h ! p) = 0" by simp
        with False \<open>a = k\<close> P pn pne show ?thesis by (simp add: lev [OF k])
      qed
    next
      case False
      show ?thesis
      proof (cases "a < k")
        case True
        show ?thesis
        proof (cases "parentAddr body M (es ! a)")
          case None
          with pt [OF a] True False show ?thesis by (simp add: lev [OF a])
        next
          case (Some q)
          from parentAddr_other [OF wf Some] have q: "q < length es" by simp
          show ?thesis
          proof (cases "q < a")
            case qa: True
            with True have "q \<noteq> k" by simp
            with pt [OF a] True False Some q qa show ?thesis by (simp add: lev [OF a] lev [OF q])
          next
            case qa: False
            with pt [OF a] True False Some show ?thesis by (simp add: lev [OF a])
          qed
        qed
      next
        case False
        with \<open>a \<noteq> k\<close> pt [OF a] show ?thesis by (simp add: lev [OF a])
      qed
    qed
  qed
  with ln show ?thesis by blast
qed

lemma linkNodes_linked:
  assumes Mk: "\<And>a. a < length cs \<Longrightarrow> M (info_element (cs ! a)) = Some a"
    and wf: "\<And>e p. M e = Some p \<Longrightarrow> p < length cs \<and> map info_element cs ! p = e"
  shows "linkedUpTo body (map info_element cs) M k h \<Longrightarrow> rest = drop k cs \<Longrightarrow>
     k \<le> length cs \<Longrightarrow>
     \<exists>h'. linkNodes body rest h = Inr h'
          \<and> linkedUpTo body (map info_element cs) M (length cs) h'"
proof (induction rest arbitrary: k h)
  case Nil
  then have "k = length cs" by simp
  with Nil show ?case by simp
next
  case (Cons c rest)
  from Cons.prems(2) have k: "k < length cs"
    by (metis drop_all list.distinct(1) not_le)
  with Cons.prems(2) have c: "c = cs ! k" and rest: "rest = drop (Suc k) cs"
    by (simp_all add: Cons_nth_drop_Suc [symmetric])
  let ?es = "map info_element cs"
  have kl: "k < length ?es" using k by simp
  have Mk': "M (?es ! k) = Some k" using Mk [OF k] k by simp
  have ce: "info_element c = ?es ! k" using c k by simp
  have wf': "\<And>e p. M e = Some p \<Longrightarrow> p < length ?es \<and> ?es ! p = e"
    using wf by (simp only: length_map)
  have "\<exists>h1. linkNode body c h = Inr h1 \<and> linkedUpTo body ?es M (Suc k) h1"
  proof (cases "parentAddr body M (?es ! k)")
    case None
    from linkNode_root_step [OF Cons.prems(1) kl Mk' ce None] show ?thesis .
  next
    case (Some p)
    from linkNode_child_step [OF Cons.prems(1) kl Mk' ce Some wf'] show ?thesis .
  qed
  then obtain h1 where l1: "linkNode body c h = Inr h1"
    and i1: "linkedUpTo body ?es M (Suc k) h1" by blast
  from k have "Suc k \<le> length cs" by simp
  from Cons.IH [OF i1 rest this] l1 show ?case by simp
qed

text \<open>In a list in document order every parent is listed before its children.\<close>

lemma parent_before_child:
  assumes srt: "sorted_wrt precedes es"
    and wf: "\<And>e p. M e = Some p \<Longrightarrow> p < length es \<and> es ! p = e"
    and a: "a < length es" and P: "parentAddr body M (es ! a) = Some q"
  shows "q < a"
proof (rule ccontr)
  assume "\<not> q < a"
  from P obtain pe where fp: "findParentComponent body (es ! a) = Some pe" and Mp: "M pe = Some q"
    by (auto simp: parentAddr_def split: option.splits)
  from wf [OF Mp] have q: "q < length es" and eq: "es ! q = pe" by simp_all
  from findParentComponent_precedes [OF fp] eq have pr: "precedes (es ! q) (es ! a)" by simp
  show False
  proof (cases "a = q")
    case True
    with pr precedes_irrefl show False by simp
  next
    case False
    with \<open>\<not> q < a\<close> have "a < q" by simp
    from sorted_wrt_nth_less [OF srt this q] pr precedes_asym show False by blast
  qed
qed


lemma arraySort_sorted:
  "sorted_wrt (\<lambda>a b. cmp a b \<le> 0) xs \<Longrightarrow> arraySort cmp xs = xs"
proof (induction xs)
  case Nil
  show ?case by (simp add: arraySort_def)
next
  case (Cons x xs)
  then have "arraySort cmp xs = xs" by simp
  then have "arraySort cmp (x # xs) = insertSorted cmp x xs"
    by (simp add: arraySort_def)
  also from Cons.prems have "\<dots> = x # xs" by (cases xs) simp_all
  finally show ?case .
qed

lemma arraySort_inDocumentOrder:
  assumes "inDocumentOrder h arr"
  shows "arraySort (compareNodes h) arr = arr"
proof (rule arraySort_sorted)
  from assms show "sorted_wrt (\<lambda>a b. compareNodes h a b \<le> 0) arr"
    unfolding inDocumentOrder_def
    by (rule sorted_wrt_mono_rel [rotated]) (simp add: compareNodes_precedes)
qed

text \<open>
  The depth of the sort: a node has fewer listed ancestors than the list has entries,
  and fewer than each of its children.
\<close>

lemma listedAbove_bound:
  assumes "a < length es"
  shows "listedAbove es a < length es"
proof -
  have "{q. q < length es \<and> isAncestor (es ! q) (es ! a)} \<subseteq> {..< length es} - {a}"
    by (auto simp: isAncestor_irrefl)
  then have "listedAbove es a \<le> card ({..< length es} - {a})"
    unfolding listedAbove_def by (intro card_mono) simp_all
  also from assms have "\<dots> < length es" by simp
  finally show ?thesis .
qed

lemma listedAbove_less:
  assumes q: "q < length es" and anc: "isAncestor (es ! q) (es ! a)"
  shows "listedAbove es q < listedAbove es a"
proof -
  let ?A = "{r. r < length es \<and> isAncestor (es ! r) (es ! q)}"
  let ?B = "{r. r < length es \<and> isAncestor (es ! r) (es ! a)}"
  have "?A \<subseteq> ?B" using anc isAncestor_trans by blast
  moreover from q anc have "q \<in> ?B" by simp
  moreover have "q \<notin> ?A" by (simp add: isAncestor_irrefl)
  ultimately have "?A \<subset> ?B" by blast
  moreover have "finite ?B" by simp
  ultimately show ?thesis unfolding listedAbove_def by (rule psubset_card_mono [rotated])
qed

text \<open>The nodes below a set of nodes; below the roots are all nodes.\<close>

lemma below_union: "below n P (A \<union> B) = below n P A \<union> below n P B"
proof (intro set_eqI iffI)
  fix a assume "a \<in> below n P (A \<union> B)"
  then show "a \<in> below n P A \<union> below n P B"
    by induction (auto intro: below.intros)
next
  fix a assume "a \<in> below n P A \<union> below n P B"
  then show "a \<in> below n P (A \<union> B)"
  proof
    assume "a \<in> below n P A"
    then show ?thesis by induction (auto intro: below.intros)
  next
    assume "a \<in> below n P B"
    then show ?thesis by induction (auto intro: below.intros)
  qed
qed

lemma below_single:
  "below n P {p} = insert p (below n P {c. c < n \<and> P c = Some p})"
proof (intro set_eqI iffI)
  fix a assume "a \<in> below n P {p}"
  then show "a \<in> insert p (below n P {c. c < n \<and> P c = Some p})"
  proof induction
    case (here a)
    then show ?case by simp
  next
    case (under q a)
    from under.IH show ?case
    proof
      assume "q = p"
      with under.hyps have "a \<in> {c. c < n \<and> P c = Some p}" by simp
      then show ?thesis by (auto intro: below.here)
    next
      assume "q \<in> below n P {c. c < n \<and> P c = Some p}"
      with under.hyps show ?thesis by (auto intro: below.under)
    qed
  qed
next
  fix a assume "a \<in> insert p (below n P {c. c < n \<and> P c = Some p})"
  then show "a \<in> below n P {p}"
  proof
    assume "a = p"
    then show ?thesis by (simp add: below.here)
  next
    assume "a \<in> below n P {c. c < n \<and> P c = Some p}"
    then show ?thesis
    proof induction
      case (here a)
      then have "a < n" "P a = Some p" by simp_all
      with below.here [of p "{p}" n P] show ?case by (auto intro: below.under)
    next
      case (under q a)
      then show ?case by (auto intro: below.under)
    qed
  qed
qed

lemma below_childless:
  assumes "\<And>c. c < n \<Longrightarrow> P c \<noteq> Some p"
  shows "below n P {p} = {p}"
proof -
  from assms have e: "{c. c < n \<and> P c = Some p} = {}" by auto
  have "a \<in> below n P {} \<Longrightarrow> False" for a by (induction rule: below.induct) simp_all
  then have b0: "below n P {} = {}" by auto
  show ?thesis unfolding below_single e b0 ..
qed

lemma below_all:
  assumes wf: "\<And>a q. a < length es \<Longrightarrow> P a = Some q \<Longrightarrow>
                 q < length es \<and> isAncestor (es ! q) (es ! a)"
  shows "a < length es \<Longrightarrow> a \<in> below (length es) P {c. c < length es \<and> P c = None}"
proof (induction "listedAbove es a" arbitrary: a rule: less_induct)
  case less
  show ?case
  proof (cases "P a")
    case None
    with less.prems show ?thesis by (simp add: below.here)
  next
    case (Some q)
    from wf [OF less.prems Some] have q: "q < length es" and anc: "isAncestor (es ! q) (es ! a)"
      by simp_all
    from less.hyps [OF listedAbove_less [OF q anc] q] less.prems Some
    show ?thesis by (auto intro: below.under)
  qed
qed

text \<open>The hierarchy with some of its arrays sorted.\<close>

lemma nodes_withSorted:
  "a < length (nodes h) \<Longrightarrow>
     nodes (withSorted h S b) ! a =
       (if a \<in> S
        then (nodes h ! a)\<lparr>children := arraySort (compareNodes h) (children (nodes h ! a))\<rparr>
        else nodes h ! a)"
  by (simp add: withSorted_def)

lemma withSorted_simps:
  "length (nodes (withSorted h S b)) = length (nodes h)"
  "nodeMap (withSorted h S b) = nodeMap h"
  "rootNodes (withSorted h S b) =
     (if b then arraySort (compareNodes h) (rootNodes h) else rootNodes h)"
  by (simp_all add: withSorted_def)

lemma withSorted_fields:
  assumes "a < length (nodes h)"
  shows "element (nodes (withSorted h S b) ! a) = element (nodes h ! a)"
    and "parent (nodes (withSorted h S b) ! a) = parent (nodes h ! a)"
    and "level (nodes (withSorted h S b) ! a) = level (nodes h ! a)"
    and "children (nodes (withSorted h S b) ! a) =
           (if a \<in> S then arraySort (compareNodes h) (children (nodes h ! a))
            else children (nodes h ! a))"
  using assms by (simp_all add: nodes_withSorted)

lemma withSorted_empty: "withSorted h {} False = h"
  by (simp add: withSorted_def map_nth)

lemma compareNodes_withSorted:
  "x < length (nodes h) \<Longrightarrow> y < length (nodes h) \<Longrightarrow>
     compareNodes (withSorted h S b) x y = compareNodes h x y"
  by (simp add: compareNodes_def withSorted_fields)

lemma withSorted_eqI:
  assumes "\<And>a. a < length (nodes h) \<Longrightarrow> (a \<in> S) = (a \<in> T)"
  shows "withSorted h S b = withSorted h T b"
  using assms by (simp add: withSorted_def)

lemma arraySort_Nil: "arraySort cmp [] = []"
  by (simp add: arraySort_def)

lemma arraySort_Nil_iff: "(arraySort cmp xs = []) = (xs = [])"
  using length_arraySort [of cmp xs] by (cases xs) (auto simp: arraySort_Nil)

lemma arraySort_inDoc:
  assumes el: "\<And>a. a < length es \<Longrightarrow> element (nodes h ! a) = es ! a"
    and dist: "distinct es"
    and xs: "set xs \<subseteq> {..< length es}" and dxs: "distinct xs"
  shows "inDocumentOrder h (arraySort (compareNodes h) xs)"
  unfolding inDocumentOrder_def
proof (rule arraySort_sorts [OF _ _ _ dxs])
  fix a b c
  assume "precedes (element (nodes h ! a)) (element (nodes h ! b))"
    "precedes (element (nodes h ! b)) (element (nodes h ! c))"
  then show "precedes (element (nodes h ! a)) (element (nodes h ! c))"
    by (rule precedes_trans)
next
  fix x y assume "x \<in> set xs" "y \<in> set xs" "x \<noteq> y"
  with xs have "x < length es" "y < length es" by auto
  with dist \<open>x \<noteq> y\<close> have ne: "element (nodes h ! x) \<noteq> element (nodes h ! y)"
    by (simp add: el nth_eq_iff_index_eq)
  from compareNodes_le_iff [OF ne]
  show "(compareNodes h x y \<le> 0) = precedes (element (nodes h ! x)) (element (nodes h ! y))" .
  from precedes_total [OF ne]
  show "precedes (element (nodes h ! x)) (element (nodes h ! y))
        \<or> precedes (element (nodes h ! y)) (element (nodes h ! x))" .
qed

lemma arraySort_idem:
  assumes el: "\<And>a. a < length es \<Longrightarrow> element (nodes h ! a) = es ! a"
    and dist: "distinct es"
    and xs: "set xs \<subseteq> {..< length es}" and dxs: "distinct xs"
  shows "arraySort (compareNodes h) (arraySort (compareNodes h) xs)
         = arraySort (compareNodes h) xs"
  by (rule arraySort_inDocumentOrder) (rule arraySort_inDoc [OF el dist xs dxs])

lemma withSorted_childless:
  assumes "c < length (nodes h)" and "children (nodes h ! c) = []"
  shows "withSorted h (insert c T) b = withSorted h T b"
proof -
  have "(nodes h ! c)\<lparr>children := arraySort (compareNodes h) (children (nodes h ! c))\<rparr>
        = nodes h ! c"
    using assms(2) by (simp add: arraySort_Nil)
  then have "map (\<lambda>a. if a \<in> insert c T
                   then (nodes h ! a)\<lparr>children :=
                          arraySort (compareNodes h) (children (nodes h ! a))\<rparr>
                   else nodes h ! a) [0 ..< length (nodes h)]
     = map (\<lambda>a. if a \<in> T
                   then (nodes h ! a)\<lparr>children :=
                          arraySort (compareNodes h) (children (nodes h ! a))\<rparr>
                   else nodes h ! a) [0 ..< length (nodes h)]"
    by (intro map_cong) auto
  then show ?thesis by (simp add: withSorted_def)
qed

lemma withSorted_write:
  assumes p: "p < length (nodes h)"
  shows "updateNode p (\<lambda>n. n\<lparr>children := arraySort (compareNodes h) (children (nodes h ! p))\<rparr>)
           (withSorted h S b) = withSorted h (insert p S) b"
proof -
  let ?g = "\<lambda>S a. if a \<in> S
                   then (nodes h ! a)\<lparr>children :=
                          arraySort (compareNodes h) (children (nodes h ! a))\<rparr>
                   else nodes h ! a"
  have "(map (?g S) [0 ..< length (nodes h)])
          [p := (map (?g S) [0 ..< length (nodes h)] ! p)
                  \<lparr>children := arraySort (compareNodes h) (children (nodes h ! p))\<rparr>]
        = map (?g (insert p S)) [0 ..< length (nodes h)]"
    using p by (intro nth_equalityI) (auto simp: nth_list_update)
  then show ?thesis by (simp add: withSorted_def updateNode_def)
qed

lemma linked_facts:
  assumes lk: "linkedUpTo body es M (length es) h"
  shows "length (nodes h) = length es"
    and "rootNodes h = filter (\<lambda>c. parentAddr body M (es ! c) = None) [0 ..< length es]"
    and "a < length es \<Longrightarrow> element (nodes h ! a) = es ! a"
    and "a < length es \<Longrightarrow>
           children (nodes h ! a) = filter (\<lambda>c. parentAddr body M (es ! c) = Some a) [0 ..< length es]"
    and "a < length es \<Longrightarrow> parent (nodes h ! a) = parentAddr body M (es ! a)"
    and "a < length es \<Longrightarrow> level (nodes h ! a) =
           (case parentAddr body M (es ! a) of
              None \<Rightarrow> 0
            | Some p \<Rightarrow> (if p < a then level (nodes h ! p) else 0) + 1)"
  using lk by (simp_all add: linkedUpTo_def)

lemma below_empty: "below n P {} = {}"
proof -
  have "a \<in> below n P {} \<Longrightarrow> False" for a by (induction rule: below.induct) simp_all
  then show ?thesis by auto
qed

text \<open>
  The \<open>forEach\<close> at the end of \<open>sortNodesByDOMOrder\<close>, given what the recursive call
  does for each node of the array.
\<close>

lemma sort_each:
  assumes lk: "linkedUpTo body es M (length es) h"
    and step: "\<And>c T. c \<in> set ys \<Longrightarrow>
        sortNodesByDOMOrder fuel (ChildrenOf c) (withSorted h T b)
          = Some (withSorted h (T \<union> below (length es) (\<lambda>a. parentAddr body M (es ! a)) {c}) b)"
    and ys: "set ys \<subseteq> {..< length es}"
  shows "forEachOpt
           (\<lambda>node h'. if length (children (nodes h' ! node)) > 0
                       then sortNodesByDOMOrder fuel (ChildrenOf node) h'
                       else Some h')
           ys (withSorted h T b)
         = Some (withSorted h (T \<union> below (length es) (\<lambda>a. parentAddr body M (es ! a)) (set ys)) b)"
  using step ys
proof (induction ys arbitrary: T)
  case Nil
  then show ?case by (simp add: below_empty)
next
  case (Cons c ys)
  let ?n = "length es"
  let ?P = "\<lambda>a. parentAddr body M (es ! a)"
  note len = linked_facts(1) [OF lk]
  note ch = linked_facts(4) [OF lk]
  from Cons.prems(2) have c: "c < ?n" by simp
  from c len have c': "c < length (nodes h)" by simp
  have first: "(if length (children (nodes (withSorted h T b) ! c)) > 0
                     then sortNodesByDOMOrder fuel (ChildrenOf c) (withSorted h T b)
                     else Some (withSorted h T b))
      = Some (withSorted h (T \<union> below ?n ?P {c}) b)"
  proof (cases "children (nodes h ! c) = []")
    case True
    have "set (children (nodes h ! c)) = {a. a < ?n \<and> ?P a = Some c}"
      using ch [OF c] by auto
    with True have "{a. a < ?n \<and> ?P a = Some c} = {}" by simp
    then have "\<And>a. a < ?n \<Longrightarrow> ?P a \<noteq> Some c" by blast
    then have "below ?n ?P {c} = {c}" by (rule below_childless)
    with True c' show ?thesis
      by (simp add: withSorted_fields arraySort_Nil withSorted_childless)
  next
    case False
    then have "length (children (nodes (withSorted h T b) ! c)) > 0"
      using c' by (simp add: withSorted_fields arraySort_Nil_iff)
    with Cons.prems(1) [of c T] show ?thesis by simp
  qed
  from Cons.prems have "forEachOpt
           (\<lambda>node h'. if length (children (nodes h' ! node)) > 0
                       then sortNodesByDOMOrder fuel (ChildrenOf node) h'
                       else Some h')
           ys (withSorted h (T \<union> below ?n ?P {c}) b)
         = Some (withSorted h (T \<union> below ?n ?P {c} \<union> below ?n ?P (set ys)) b)"
    by (intro Cons.IH) simp_all
  with first have "forEachOpt
           (\<lambda>node h'. if length (children (nodes h' ! node)) > 0
                       then sortNodesByDOMOrder fuel (ChildrenOf node) h'
                       else Some h')
           (c # ys) (withSorted h T b)
         = Some (withSorted h (T \<union> below ?n ?P {c} \<union> below ?n ?P (set ys)) b)"
    by simp
  moreover have "below ?n ?P (set (c # ys)) = below ?n ?P {c} \<union> below ?n ?P (set ys)"
    using below_union [of ?n ?P "{c}" "set ys"] by simp
  ultimately show ?case by (simp add: Un_assoc)
qed

text \<open>
  A call of \<open>sortNodesByDOMOrder\<close> on the \<open>children\<close> array of node \<open>p\<close> sorts the
  \<open>children\<close> arrays of \<open>p\<close> and of all nodes below it, and changes nothing else; the
  depth it needs is bounded by the number of listed elements.
\<close>

lemma sort_children:
  assumes lk: "linkedUpTo body es M (length es) h"
    and dist: "distinct es"
    and wf: "\<And>e p. M e = Some p \<Longrightarrow> p < length es \<and> es ! p = e"
  shows "p < length es \<Longrightarrow> length es < fuel + listedAbove es p + 1 \<Longrightarrow>
     sortNodesByDOMOrder fuel (ChildrenOf p) (withSorted h S b)
       = Some (withSorted h (S \<union> below (length es) (\<lambda>a. parentAddr body M (es ! a)) {p}) b)"
proof (induction fuel arbitrary: p S)
  case 0
  with listedAbove_bound [of p es] show ?case by simp
next
  case (Suc fuel)
  let ?n = "length es"
  let ?P = "\<lambda>a. parentAddr body M (es ! a)"
  let ?srt = "arraySort (compareNodes h)"
  note len = linked_facts(1) [OF lk]
  note el = linked_facts(3) [OF lk]
  note ch = linked_facts(4) [OF lk]
  have p: "p < length (nodes h)" using Suc.prems(1) len by simp
  have chs: "set (children (nodes h ! p)) = {c. c < ?n \<and> ?P c = Some p}"
    and chd: "distinct (children (nodes h ! p))"
    using Suc.prems(1) by (auto simp: ch)
  have idem: "?srt (?srt (children (nodes h ! p))) = ?srt (children (nodes h ! p))"
    by (rule arraySort_idem [OF el dist _ chd]) (auto simp: chs)
  let ?H = "withSorted h S b"
  have "arraySort (compareNodes ?H) (children (nodes ?H ! p)) = ?srt (children (nodes ?H ! p))"
  proof (rule arraySort_cong)
    fix x y assume "x \<in> set (children (nodes ?H ! p))" "y \<in> set (children (nodes ?H ! p))"
    then have "x < ?n" "y < ?n"
      using p chs by (auto simp: withSorted_fields set_arraySort split: if_splits)
    then show "compareNodes ?H x y = compareNodes h x y"
      by (simp add: compareNodes_withSorted len)
  qed
  also have "\<dots> = ?srt (children (nodes h ! p))"
    using p idem by (simp add: withSorted_fields)
  finally have sorted: "arraySort (compareNodes ?H) (children (nodes ?H ! p))
      = ?srt (children (nodes h ! p))" .
  have "sortNodesByDOMOrder (Suc fuel) (ChildrenOf p) ?H =
      forEachOpt
           (\<lambda>node h'. if length (children (nodes h' ! node)) > 0
                       then sortNodesByDOMOrder fuel (ChildrenOf node) h'
                       else Some h')
           (?srt (children (nodes h ! p))) (withSorted h (insert p S) b)"
    using sorted withSorted_write [OF p, of S b] by (simp add: Let_def)
  also have "\<dots> = Some (withSorted h (insert p S \<union> below ?n ?P (set (?srt (children (nodes h ! p))))) b)"
  proof (rule sort_each [OF lk])
    fix c T assume "c \<in> set (?srt (children (nodes h ! p)))"
    then have c: "c < ?n" and Pc: "?P c = Some p" by (simp_all add: set_arraySort chs)
    from parentAddr_other [OF wf Pc] have anc: "isAncestor (es ! p) (es ! c)" by simp
    from listedAbove_less [OF Suc.prems(1) anc] Suc.prems(2)
    have "?n < fuel + listedAbove es c + 1" by simp
    from Suc.IH [OF c this]
    show "sortNodesByDOMOrder fuel (ChildrenOf c) (withSorted h T b)
          = Some (withSorted h (T \<union> below ?n ?P {c}) b)" .
  next
    show "set (?srt (children (nodes h ! p))) \<subseteq> {..< ?n}"
      by (auto simp: set_arraySort chs)
  qed
  also have "insert p S \<union> below ?n ?P (set (?srt (children (nodes h ! p))))
      = S \<union> below ?n ?P {p}"
    by (simp add: set_arraySort chs below_single [of ?n ?P p])
  finally show ?case .
qed

text \<open>
  The call of \<open>buildHierarchy\<close> on the root array: it sorts the root array and every
  \<open>children\<close> array, and stays within the depth allowed.
\<close>

lemma sort_roots:
  assumes lk: "linkedUpTo body es M (length es) h"
    and dist: "distinct es"
    and wf: "\<And>e p. M e = Some p \<Longrightarrow> p < length es \<and> es ! p = e"
  shows "sortNodesByDOMOrder (Suc (length es)) RootNodes h
         = Some (withSorted h {..< length es} True)"
proof -
  let ?n = "length es"
  let ?P = "\<lambda>a. parentAddr body M (es ! a)"
  let ?srt = "arraySort (compareNodes h)"
  note len = linked_facts(1) [OF lk]
  note roots = linked_facts(2) [OF lk]
  have rs: "set (rootNodes h) = {c. c < ?n \<and> ?P c = None}" by (auto simp: roots)
  have w: "h\<lparr>rootNodes := ?srt (rootNodes h)\<rparr> = withSorted h {} True"
    by (simp add: withSorted_def map_nth)
  have "sortNodesByDOMOrder (Suc ?n) RootNodes h =
      forEachOpt
           (\<lambda>node h'. if length (children (nodes h' ! node)) > 0
                       then sortNodesByDOMOrder ?n (ChildrenOf node) h'
                       else Some h')
           (?srt (rootNodes h)) (withSorted h {} True)"
    by (simp add: Let_def w)
  also have "\<dots> = Some (withSorted h ({} \<union> below ?n ?P (set (?srt (rootNodes h)))) True)"
  proof (rule sort_each [OF lk])
    fix c T assume "c \<in> set (?srt (rootNodes h))"
    then have c: "c < ?n" by (simp add: set_arraySort rs)
    have "?n < ?n + listedAbove es c + 1" by simp
    from sort_children [OF lk dist wf c this]
    show "sortNodesByDOMOrder ?n (ChildrenOf c) (withSorted h T True)
          = Some (withSorted h (T \<union> below ?n ?P {c}) True)" .
  next
    show "set (?srt (rootNodes h)) \<subseteq> {..< ?n}" by (auto simp: set_arraySort rs)
  qed
  also have "withSorted h ({} \<union> below ?n ?P (set (?srt (rootNodes h)))) True
      = withSorted h {..< ?n} True"
  proof (rule withSorted_eqI)
    fix a assume "a < length (nodes h)"
    with len have a: "a < ?n" by simp
    have "a \<in> below ?n ?P {c. c < ?n \<and> ?P c = None}"
    proof (rule below_all [OF _ a])
      fix a q assume "a < ?n" "?P a = Some q"
      from parentAddr_other [OF wf this(2)]
      show "q < ?n \<and> isAncestor (es ! q) (es ! a)" by simp
    qed
    with a show "(a \<in> {} \<union> below ?n ?P (set (?srt (rootNodes h)))) = (a \<in> {..< ?n})"
      by (simp add: set_arraySort rs)
  qed
  finally show ?thesis .
qed

text \<open>
  \<open>findParentComponent\<close> returns the nearest ancestor below \<open>document.body\<close> that
  carries a source path.
\<close>

lemma find_ancestorsBelowBody:
  "find (hasSourcePath body) (ancestorsBelowBody (j # q)) = findParentLoop body q"
proof (induction q arbitrary: j)
  case Nil
  show ?case by simp
next
  case (Cons i q)
  from Cons [of i] show ?case by simp
qed

lemma nearestSourcePathAncestor_eq:
  "nearestSourcePathAncestor body e = findParentComponent body e"
proof (cases e)
  case Nil
  then show ?thesis by (simp add: nearestSourcePathAncestor_def findParentComponent_def)
next
  case (Cons i p)
  show ?thesis
    unfolding Cons nearestSourcePathAncestor_def find_ancestorsBelowBody
    by (simp add: findParentComponent_def)
qed

lemma inDocumentOrder_withSorted:
  assumes "set xs \<subseteq> {..< length (nodes h)}" and "inDocumentOrder h xs"
  shows "inDocumentOrder (withSorted h S b) xs"
  using assms(2) unfolding inDocumentOrder_def
proof (rule sorted_wrt_mono_rel [rotated])
  fix x y assume "x \<in> set xs" "y \<in> set xs"
    and "precedes (element (nodes h ! x)) (element (nodes h ! y))"
  moreover from this assms(1) have "x < length (nodes h)" "y < length (nodes h)" by auto
  ultimately show "precedes (element (nodes (withSorted h S b) ! x))
                        (element (nodes (withSorted h S b) ! y))"
    by (simp add: withSorted_fields)
qed

text \<open>
  The linked and sorted hierarchy is a forest, whatever the order of the list.
\<close>

lemma linked_forestOK:
  assumes lk: "linkedUpTo body es M (length es) h"
    and dist: "distinct es"
    and Mk: "\<And>a. a < length es \<Longrightarrow> M (es ! a) = Some a"
    and wf: "\<And>e p. M e = Some p \<Longrightarrow> p < length es \<and> es ! p = e"
    and insp: "\<And>e. e \<in> set es \<Longrightarrow> hasAllProperties body e"
  shows "forestOK body (withSorted h {..< length es} True)"
proof -
  let ?n = "length es"
  let ?P = "\<lambda>a. parentAddr body M (es ! a)"
  let ?H = "withSorted h {..< ?n} True"
  let ?srt = "arraySort (compareNodes h)"
  note len = linked_facts(1) [OF lk]
  note roots = linked_facts(2) [OF lk]
  note el = linked_facts(3) [OF lk]
  note ch = linked_facts(4) [OF lk]
  note pa = linked_facts(5) [OF lk]
  note lv = linked_facts(6) [OF lk]
  have lenH: "length (nodes ?H) = ?n" by (simp add: withSorted_simps len)
  have elH: "element (nodes ?H ! a) = es ! a"
    and paH: "parent (nodes ?H ! a) = ?P a"
    and lvH: "level (nodes ?H ! a) = level (nodes h ! a)"
    and chH: "children (nodes ?H ! a) = ?srt (children (nodes h ! a))"
    if "a < ?n" for a
    using that by (simp_all add: withSorted_fields len el pa)
  have rsH: "set (rootNodes ?H) = {c. c < ?n \<and> ?P c = None}"
    by (auto simp: withSorted_simps set_arraySort roots)
  have csH: "set (children (nodes ?H ! a)) = {c. c < ?n \<and> ?P c = Some a}" if "a < ?n" for a
    using that by (auto simp: chH set_arraySort ch)
  have elems: "map element (nodes ?H) = es"
    by (intro nth_equalityI) (simp_all add: lenH elH)
  have order: "inDocumentOrder ?H (?srt (filter Q [0 ..< ?n]))" for Q
  proof (rule inDocumentOrder_withSorted)
    show "set (?srt (filter Q [0 ..< ?n])) \<subseteq> {..< length (nodes h)}"
      by (auto simp: set_arraySort len)
    show "inDocumentOrder h (?srt (filter Q [0 ..< ?n]))"
      by (rule arraySort_inDoc [OF el dist]) auto
  qed
  have node: "nodeOK body ?H a" if a: "a < ?n" for a
  proof -
    have first: "case parent (nodes ?H ! a) of
         None \<Rightarrow>
           level (nodes ?H ! a) = 0 \<and> a \<in> set (rootNodes ?H)
           \<and> (case nearestSourcePathAncestor body (element (nodes ?H ! a)) of
                 None \<Rightarrow> True
               | Some pe \<Rightarrow> pe \<notin> set (map element (nodes ?H)))
       | Some p \<Rightarrow>
           p < length (nodes ?H) \<and> a \<notin> set (rootNodes ?H) \<and> a \<in> set (children (nodes ?H ! p))
           \<and> nearestInspectableAncestor body (element (nodes ?H ! a))
               = Some (element (nodes ?H ! p))
           \<and> (p < a \<longrightarrow> level (nodes ?H ! a) = level (nodes ?H ! p) + 1)"
    proof (cases "?P a")
      case None
      have r: "case findParentComponent body (es ! a) of
                 None \<Rightarrow> True
               | Some pe \<Rightarrow> pe \<notin> set es"
      proof (cases "findParentComponent body (es ! a)")
        case fp: (Some pe)
        with None have "M pe = None" by (simp add: parentAddr_def)
        with Mk have "pe \<notin> set es" by (auto simp: in_set_conv_nth)
        with fp show ?thesis by simp
      qed simp
      have "case nearestSourcePathAncestor body (element (nodes ?H ! a)) of
                 None \<Rightarrow> True
               | Some pe \<Rightarrow> pe \<notin> set (map element (nodes ?H))"
        unfolding elems elH [OF a] nearestSourcePathAncestor_eq by (rule r)
      with None a lv [OF a] show ?thesis
        by (simp add: paH lvH rsH)
    next
      case (Some p)
      from parentAddr_other [OF wf Some] have p: "p < ?n"
        and fp: "findParentComponent body (es ! a) = Some (es ! p)" by simp_all
      from p have "es ! p \<in> set es" by simp
      from nearestInspectable_of_parent [OF fp insp [OF this]]
      have "nearestInspectableAncestor body (es ! a) = Some (es ! p)" .
      with Some a p lv [OF a] show ?thesis
        by (simp add: paH lvH rsH csH elH lenH)
    qed
    have second: "\<forall>c \<in> set (children (nodes ?H ! a)).
            c < length (nodes ?H) \<and> parent (nodes ?H ! c) = Some a"
      using a by (simp add: csH lenH paH)
    have third: "inDocumentOrder ?H (children (nodes ?H ! a))"
      using order by (simp add: chH [OF a] ch [OF a])
    from first second third show ?thesis by (simp add: nodeOK_def)
  qed
  have "\<forall>r \<in> set (rootNodes ?H). r < length (nodes ?H) \<and> parent (nodes ?H ! r) = None"
    by (simp add: rsH lenH paH)
  moreover have "inDocumentOrder ?H (rootNodes ?H)"
    using order by (simp add: withSorted_simps roots)
  ultimately show ?thesis using node by (simp add: forestOK_def lenH)
qed

text \<open>If every parent is listed before its children, every level is right.\<close>

lemma linked_levelsOK:
  assumes lk: "linkedUpTo body es M (length es) h"
    and wf: "\<And>e p. M e = Some p \<Longrightarrow> p < length es \<and> es ! p = e"
    and ord: "\<And>a q. a < length es \<Longrightarrow> parentAddr body M (es ! a) = Some q \<Longrightarrow> q < a"
  shows "levelsOK (withSorted h {..< length es} True)"
proof -
  note len = linked_facts(1) [OF lk]
  note pa = linked_facts(5) [OF lk]
  note lv = linked_facts(6) [OF lk]
  show ?thesis
    unfolding levelsOK_def
  proof (intro allI impI)
    fix a assume "a < length (nodes (withSorted h {..< length es} True))"
    then have a: "a < length es" by (simp add: withSorted_simps len)
    show "case parent (nodes (withSorted h {..< length es} True) ! a) of
          None \<Rightarrow> level (nodes (withSorted h {..< length es} True) ! a) = 0
        | Some p \<Rightarrow> level (nodes (withSorted h {..< length es} True) ! a)
             = level (nodes (withSorted h {..< length es} True) ! p) + 1"
    proof (cases "parentAddr body M (es ! a)")
      case None
      with a lv [OF a] show ?thesis by (simp add: withSorted_fields len pa)
    next
      case (Some p)
      from ord [OF a Some] a have "p < a" "p < length es" by simp_all
      with Some a lv [OF a] show ?thesis by (simp add: withSorted_fields len pa)
    qed
  qed
qed

text \<open>
  What \<open>buildHierarchy\<close> returns for a list of components with distinct elements: the
  linked hierarchy with the root array and every \<open>children\<close> array sorted.
\<close>

lemma buildHierarchy_result:
  assumes dist: "distinct (map info_element cs)"
  shows "\<exists>M h. (\<forall>a < length cs. M (map info_element cs ! a) = Some a)
     \<and> (\<forall>e p. M e = Some p \<longrightarrow> p < length cs \<and> map info_element cs ! p = e)
     \<and> linkedUpTo body (map info_element cs) M (length cs) h
     \<and> buildHierarchy body cs = Inr (withSorted h {..< length cs} True)"
proof -
  let ?es = "map info_element cs"
  define h0 where "h0 = createNodes cs 0 \<lparr>nodes = [], nodeMap = Map.empty, rootNodes = []\<rparr>"
  define M where "M = nodeMap h0"
  from createNodes_linked(1) [OF dist, of body]
  have l0: "linkedUpTo body ?es M 0 h0"
    by (simp add: h0_def M_def)
  have Mk: "\<forall>a < length cs. M (?es ! a) = Some a"
    using createNodes_linked(2) [OF dist] unfolding h0_def M_def .
  have wf: "\<forall>e p. M e = Some p \<longrightarrow> p < length cs \<and> ?es ! p = e"
    using createNodes_linked(3) [OF dist] unfolding h0_def M_def .
  have "\<exists>h'. linkNodes body (drop 0 cs) h0 = Inr h' \<and> linkedUpTo body ?es M (length cs) h'"
  proof (rule linkNodes_linked [OF _ _ l0 refl])
    fix a assume "a < length cs"
    with Mk show "M (info_element (cs ! a)) = Some a" by auto
  next
    fix e p assume "M e = Some p"
    with wf show "p < length cs \<and> ?es ! p = e" by blast
  qed simp
  then obtain h1 where l1: "linkNodes body cs h0 = Inr h1"
    and lk: "linkedUpTo body ?es M (length ?es) h1" by auto
  have "sortNodesByDOMOrder (Suc (length ?es)) RootNodes h1
         = Some (withSorted h1 {..< length ?es} True)"
  proof (rule sort_roots [OF lk dist])
    fix e p assume "M e = Some p"
    with wf have "p < length cs \<and> ?es ! p = e" by blast
    then show "p < length ?es \<and> ?es ! p = e" by (simp only: length_map)
  qed
  with l1 have "buildHierarchy body cs = Inr (withSorted h1 {..< length cs} True)"
    by (simp add: buildHierarchy_def h0_def)
  with Mk wf lk show ?thesis by auto
qed

text \<open>
  The list \<open>getAllComponents\<close> returns is in document order and holds inspectable
  elements only, so \<open>buildTreeData\<close> always gets a hierarchy.
\<close>

lemma getAllComponents_ordered:
  "sorted_wrt precedes (map info_element (getAllComponents body))"
  "e \<in> set (map info_element (getAllComponents body)) \<Longrightarrow> hasAllProperties body e"
proof -
  show "sorted_wrt precedes (map info_element (getAllComponents body))"
    unfolding getAllComponents_elements
    by (rule sorted_wrt_filter) (rule getAllComponentsInOrder_sorted)
  show "e \<in> set (map info_element (getAllComponents body)) \<Longrightarrow> hasAllProperties body e"
    unfolding getAllComponents_elements by simp
qed

lemma buildHierarchy_succeeds:
  "\<exists>h. buildHierarchy body (getAllComponents body) = Inr h"
proof -
  have "distinct (map info_element (getAllComponents body))"
    by (rule sorted_wrt_precedes_distinct) (rule getAllComponents_ordered)
  from buildHierarchy_result [OF this] show ?thesis by blast
qed

text \<open>The hierarchies built on the example pages, by evaluation.\<close>

lemma examplePage_hierarchy:
  "case buildHierarchy examplePage (getAllComponents examplePage) of
     Inl e \<Rightarrow> False
   | Inr h \<Rightarrow>
       rootNodes h = [0, 4]
       \<and> map element (nodes h) = [[0, 0], [0, 0, 0], [0, 0, 0, 0], [0, 1, 0, 0], [1]]
       \<and> map parent (nodes h) = [None, Some 0, Some 1, Some 0, None]
       \<and> map level (nodes h) = [0, 1, 2, 1, 0]
       \<and> map children (nodes h) = [[1, 3], [2], [], [], []]"
  by code_simp

lemma shuffled_hierarchy:
  "case buildHierarchy examplePage shuffledComponents of
     Inl e \<Rightarrow> False
   | Inr h \<Rightarrow>
       rootNodes h = [1, 0]
       \<and> map element (nodes h) = [[1], [0, 0], [0, 1, 0, 0], [0, 0, 0], [0, 0, 0, 0]]
       \<and> map parent (nodes h) = [None, None, Some 1, Some 1, Some 3]
       \<and> map level (nodes h) = [0, 0, 1, 1, 2]
       \<and> map children (nodes h) = [[], [3, 2], [], [4], []]"
  by code_simp

lemma shuffled_components:
  "map info_element shuffledComponents = [[1], [0, 0], [0, 1, 0, 0], [0, 0, 0], [0, 0, 0, 0]]"
  "list_all (\<lambda>c. hasAllProperties examplePage (info_element c)) shuffledComponents"
  by code_simp+

lemma reversed_components:
  "map info_element reversedComponents = [[1], [0, 1, 0, 0], [0, 0, 0, 0], [0, 0, 0], [0, 0]]"
  "list_all (\<lambda>c. hasAllProperties examplePage (info_element c)) reversedComponents"
  by code_simp+

lemma reversed_hierarchy:
  "case buildHierarchy examplePage reversedComponents of
     Inl e \<Rightarrow> False
   | Inr h \<Rightarrow>
       rootNodes h = [4, 0]
       \<and> map parent (nodes h) = [None, Some 4, Some 3, Some 4, None]
       \<and> map level (nodes h) = [0, 1, 1, 1, 0]
       \<and> map children (nodes h) = [[], [], [], [2], [3, 1]]"
  by code_simp

lemma duplicated_components:
  "map info_element duplicatedComponents = [[0, 0], [0, 0]]"
  "list_all (\<lambda>c. hasAllProperties examplePage (info_element c)) duplicatedComponents"
  by code_simp+

lemma duplicated_hierarchy:
  "case buildHierarchy examplePage duplicatedComponents of
     Inl e \<Rightarrow> False
   | Inr h \<Rightarrow>
       map element (nodes h) = [[0, 0], [0, 0]]
       \<and> rootNodes h = [1, 1]"
  by code_simp

lemma nestedPage_hierarchy:
  "case buildHierarchy nestedPage (getAllComponents nestedPage) of
     Inl e \<Rightarrow> False
   | Inr h \<Rightarrow>
       map element (nodes h) = [[0], [0, 0, 0]]
       \<and> rootNodes h = [0, 1]
       \<and> map parent (nodes h) = [None, None]"
  by code_simp

lemma nestedPage_ancestor:
  "hasAllProperties nestedPage [0] \<and> nearestInspectableAncestor nestedPage [0, 0, 0] = Some [0]"
  by code_simp

lemma map_eq_nth: "map f xs = ys \<Longrightarrow> i < length ys \<Longrightarrow> f (xs ! i) = ys ! i"
  by (metis length_map nth_map)

text \<open>
  C1 as stated fails on a list that is not in document order and on a list that names
  a component twice, and it does not say when a node is a root. On the components of
  the example page in reverse document order the node of \<open>Card\<close> (address 2) has the
  node of \<open>Button\<close> (address 3) as parent, and both are at level 1, because \<open>Button\<close>
  is linked after \<open>Card\<close>. On the list that names \<open>App\<close> twice the root array holds
  the second node twice and the first node is in no array. On the second page \<open>Card\<close>
  is a root beside \<open>App\<close>, although \<open>App\<close> is its nearest inspectable ancestor,
  because the element between them carries a source path and has no node.
\<close>

theorem buildHierarchy_not_always_forest:
  "map info_element reversedComponents = [[1], [0, 1, 0, 0], [0, 0, 0, 0], [0, 0, 0], [0, 0]]
   \<and> list_all (\<lambda>c. hasAllProperties examplePage (info_element c)) reversedComponents
   \<and> (\<exists>h. buildHierarchy examplePage reversedComponents = Inr h
          \<and> map parent (nodes h) = [None, Some 4, Some 3, Some 4, None]
          \<and> map level (nodes h) = [0, 1, 1, 1, 0]
          \<and> \<not> levelsOK h)
   \<and> map info_element duplicatedComponents = [[0, 0], [0, 0]]
   \<and> list_all (\<lambda>c. hasAllProperties examplePage (info_element c)) duplicatedComponents
   \<and> (\<exists>h. buildHierarchy examplePage duplicatedComponents = Inr h
          \<and> map element (nodes h) = [[0, 0], [0, 0]]
          \<and> rootNodes h = [1, 1])
   \<and> (\<exists>h. buildHierarchy nestedPage (getAllComponents nestedPage) = Inr h
          \<and> map element (nodes h) = [[0], [0, 0, 0]]
          \<and> map parent (nodes h) = [None, None]
          \<and> hasAllProperties nestedPage [0]
          \<and> nearestInspectableAncestor nestedPage [0, 0, 0] = Some [0])"
proof -
  from reversed_hierarchy obtain h where h: "buildHierarchy examplePage reversedComponents = Inr h"
    and p: "map parent (nodes h) = [None, Some 4, Some 3, Some 4, None]"
    and l: "map level (nodes h) = [0, 1, 1, 1, 0]"
    by (auto split: sum.splits)
  from p have "length (map parent (nodes h)) = 5" by simp
  then have len: "length (nodes h) = 5" by simp
  from map_eq_nth [OF p, of 2] have p2: "parent (nodes h ! 2) = Some 3" by simp
  from map_eq_nth [OF l, of 2] have l2: "level (nodes h ! 2) = 1" by simp
  from map_eq_nth [OF l, of 3] have l3: "level (nodes h ! 3) = 1" by simp
  have "\<not> levelsOK h"
  proof
    assume "levelsOK h"
    then have "case parent (nodes h ! 2) of
          None \<Rightarrow> level (nodes h ! 2) = 0
        | Some p \<Rightarrow> level (nodes h ! 2) = level (nodes h ! p) + 1"
      using len by (simp add: levelsOK_def)
    with p2 l2 l3 show False by simp
  qed
  with h p l have first: "\<exists>h. buildHierarchy examplePage reversedComponents = Inr h
          \<and> map parent (nodes h) = [None, Some 4, Some 3, Some 4, None]
          \<and> map level (nodes h) = [0, 1, 1, 1, 0]
          \<and> \<not> levelsOK h" by (intro exI [of _ h] conjI)
  from duplicated_hierarchy
  have second: "\<exists>h. buildHierarchy examplePage duplicatedComponents = Inr h
          \<and> map element (nodes h) = [[0, 0], [0, 0]]
          \<and> rootNodes h = [1, 1]"
    by (auto split: sum.splits)
  from nestedPage_hierarchy nestedPage_ancestor
  have third: "\<exists>h. buildHierarchy nestedPage (getAllComponents nestedPage) = Inr h
          \<and> map element (nodes h) = [[0], [0, 0, 0]]
          \<and> map parent (nodes h) = [None, None]
          \<and> hasAllProperties nestedPage [0]
          \<and> nearestInspectableAncestor nestedPage [0, 0, 0] = Some [0]"
    by (auto split: sum.splits)
  from reversed_components duplicated_components first second third show ?thesis by blast
qed

text \<open>
  C1, amended. For every list of inspectable components that names each element once,
  in whatever order, the builder returns normally, with one node per component in list
  order, and the result is a forest. A node without parent is a root at level 0, and
  it is one only if its element has no ancestor below \<open>document.body\<close> that carries a
  source path, or if the nearest such ancestor is not among the listed components. The
  parent of every other node is the node of the nearest inspectable ancestor of its
  element, and its level is the parent's plus one if the parent is listed before it.
  Parent links and \<open>children\<close> arrays agree, and the root array and every \<open>children\<close>
  array are in document order. If the list is in document order, as the list
  \<open>getAllComponents\<close> returns is, every parent is listed before its children, so every
  node with a parent is one level below it.
\<close>

theorem buildHierarchy_forest:
  assumes dist: "distinct (map info_element components)"
    and insp: "\<forall>c \<in> set components. hasAllProperties body (info_element c)"
  shows "\<exists>h. buildHierarchy body components = Inr h
           \<and> map element (nodes h) = map info_element components
           \<and> forestOK body h
           \<and> (sorted_wrt precedes (map info_element components) \<longrightarrow> levelsOK h)"
proof -
  let ?es = "map info_element components"
  from buildHierarchy_result [OF dist, of body] obtain M h1
    where Mk: "\<And>a. a < length ?es \<Longrightarrow> M (?es ! a) = Some a"
      and wf: "\<And>e p. M e = Some p \<Longrightarrow> p < length ?es \<and> ?es ! p = e"
      and lk: "linkedUpTo body ?es M (length ?es) h1"
      and res: "buildHierarchy body components = Inr (withSorted h1 {..< length ?es} True)"
    by (simp only: length_map) blast
  let ?h = "withSorted h1 {..< length ?es} True"
  from insp have insp': "\<And>e. e \<in> set ?es \<Longrightarrow> hasAllProperties body e" by auto
  have forest: "forestOK body ?h"
    by (rule linked_forestOK [OF lk dist Mk wf insp'])
  have "length (nodes ?h) = length ?es"
    by (simp add: withSorted_simps linked_facts(1) [OF lk])
  moreover have "element (nodes ?h ! a) = ?es ! a" if "a < length ?es" for a
    using that linked_facts(1,3) [OF lk] by (simp add: withSorted_fields)
  ultimately have elems: "map element (nodes ?h) = ?es"
    by (intro nth_equalityI) simp_all
  have levels: "levelsOK ?h" if srt: "sorted_wrt precedes ?es"
  proof (rule linked_levelsOK [OF lk wf])
    fix a q assume "a < length ?es" "parentAddr body M (?es ! a) = Some q"
    from parent_before_child [OF srt wf this] show "q < a" .
  qed
  from res elems forest levels show ?thesis by blast
qed

text \<open>
  On the example page. From the components listed as second \<open>Card\<close>, \<open>App\<close>, second
  \<open>Button\<close>, \<open>Button\<close>, \<open>Card\<close>: the roots are \<open>App\<close> and the second \<open>Card\<close>, and
  the children of \<open>App\<close> are \<open>Button\<close> and the second \<open>Button\<close>, both arrays sorted
  into document order; \<open>Card\<close> is the child of \<open>Button\<close>. From the components in
  document order: the same forest, with every node one level below its parent.
\<close>

theorem buildHierarchy_forest_witness:
  "distinct (map info_element shuffledComponents)
   \<and> list_all (\<lambda>c. hasAllProperties examplePage (info_element c)) shuffledComponents
   \<and> \<not> sorted_wrt precedes (map info_element shuffledComponents)
   \<and> (\<exists>h. buildHierarchy examplePage shuffledComponents = Inr h
          \<and> forestOK examplePage h
          \<and> map element (nodes h) = [[1], [0, 0], [0, 1, 0, 0], [0, 0, 0], [0, 0, 0, 0]]
          \<and> rootNodes h = [1, 0]
          \<and> map parent (nodes h) = [None, None, Some 1, Some 1, Some 3]
          \<and> map level (nodes h) = [0, 0, 1, 1, 2]
          \<and> map children (nodes h) = [[], [3, 2], [], [4], []])
   \<and> distinct (map info_element (getAllComponents examplePage))
   \<and> list_all (\<lambda>c. hasAllProperties examplePage (info_element c))
        (getAllComponents examplePage)
   \<and> sorted_wrt precedes (map info_element (getAllComponents examplePage))
   \<and> (\<exists>h. buildHierarchy examplePage (getAllComponents examplePage) = Inr h
          \<and> forestOK examplePage h \<and> levelsOK h
          \<and> map element (nodes h) = [[0, 0], [0, 0, 0], [0, 0, 0, 0], [0, 1, 0, 0], [1]]
          \<and> rootNodes h = [0, 4]
          \<and> map parent (nodes h) = [None, Some 0, Some 1, Some 0, None]
          \<and> map level (nodes h) = [0, 1, 2, 1, 0]
          \<and> map children (nodes h) = [[1, 3], [2], [], [], []])"
proof -
  have d1: "distinct (map info_element shuffledComponents)"
    by (simp add: shuffled_components)
  have i1: "\<forall>c \<in> set shuffledComponents. hasAllProperties examplePage (info_element c)"
    using shuffled_components(2) by (simp add: list_all_iff)
  have n1: "\<not> sorted_wrt precedes (map info_element shuffledComponents)"
    by (simp add: shuffled_components precedes_def)
  from buildHierarchy_forest [OF d1 i1] obtain h where
    h: "buildHierarchy examplePage shuffledComponents = Inr h"
    and ok: "forestOK examplePage h" by blast
  from shuffled_hierarchy h ok have first:
    "\<exists>h. buildHierarchy examplePage shuffledComponents = Inr h
          \<and> forestOK examplePage h
          \<and> map element (nodes h) = [[1], [0, 0], [0, 1, 0, 0], [0, 0, 0], [0, 0, 0, 0]]
          \<and> rootNodes h = [1, 0]
          \<and> map parent (nodes h) = [None, None, Some 1, Some 1, Some 3]
          \<and> map level (nodes h) = [0, 0, 1, 1, 2]
          \<and> map children (nodes h) = [[], [3, 2], [], [4], []]"
    by simp
  have s2: "sorted_wrt precedes (map info_element (getAllComponents examplePage))"
    by (rule getAllComponents_ordered)
  then have d2: "distinct (map info_element (getAllComponents examplePage))"
    by (rule sorted_wrt_precedes_distinct)
  have i2: "\<forall>c \<in> set (getAllComponents examplePage). hasAllProperties examplePage (info_element c)"
    using getAllComponents_ordered(2) [of _ examplePage] by auto
  from buildHierarchy_forest [OF d2 i2] s2 obtain h' where
    h': "buildHierarchy examplePage (getAllComponents examplePage) = Inr h'"
    and ok': "forestOK examplePage h'" and lv': "levelsOK h'" by blast
  from examplePage_hierarchy h' ok' lv' have second:
    "\<exists>h. buildHierarchy examplePage (getAllComponents examplePage) = Inr h
          \<and> forestOK examplePage h \<and> levelsOK h
          \<and> map element (nodes h) = [[0, 0], [0, 0, 0], [0, 0, 0, 0], [0, 1, 0, 0], [1]]
          \<and> rootNodes h = [0, 4]
          \<and> map parent (nodes h) = [None, Some 0, Some 1, Some 0, None]
          \<and> map level (nodes h) = [0, 1, 2, 1, 0]
          \<and> map children (nodes h) = [[1, 3], [2], [], [], []]"
    by simp
  from d1 i1 n1 first d2 i2 s2 second show ?thesis by (simp only: list_all_iff) blast
qed


subsection \<open>Building twice from the same components\<close>

lemma buildTreeData_hash:
  "lastComponentsHash (snd (buildTreeData body v)) =
     Some (generateComponentsHash (getAllComponents body))"
  by (simp add: buildTreeData_def Let_def split: sum.splits)

lemma buildTreeData_first:
  "fst (buildTreeData body v) = Inr () \<and> treeData (snd (buildTreeData body v)) \<noteq> None"
proof -
  from buildHierarchy_succeeds [of body] obtain h where
    "buildHierarchy body (getAllComponents body) = Inr h" by blast
  then show ?thesis by (simp add: buildTreeData_def Let_def)
qed

lemma buildTreeData_cached:
  assumes "lastComponentsHash v = Some (generateComponentsHash (getAllComponents body))"
    and "treeData v \<noteq> None"
  shows "buildTreeData body v = (Inr (), v)"
  using assms by (simp add: buildTreeData_def Let_def)

lemma toggleNodeExpansion_hash:
  "lastComponentsHash (toggleNodeExpansion a v) = lastComponentsHash v"
  by (simp add: toggleNodeExpansion_def Let_def split: option.splits)

lemma toggleNodeExpansion_data:
  "treeData v \<noteq> None \<Longrightarrow> treeData (toggleNodeExpansion a v) \<noteq> None"
  by (auto simp: toggleNodeExpansion_def Let_def split: option.splits)

lemma selectNode_keeps:
  "lastComponentsHash (selectNode a v) = lastComponentsHash v
   \<and> treeData (selectNode a v) = treeData v"
  by (simp add: selectNode_def split: option.splits)

text \<open>
  C7. Let \<open>v1\<close> be the view after a build from \<open>body1\<close>, and \<open>v\<close> any view with the
  fingerprint stored by that build and with tree data (the view as expanding, collapsing
  and selecting have left it). If \<open>body2\<close> yields the same fingerprint, that is the same
  sequence of file name, line and path, a build from \<open>body2\<close> returns \<open>v1\<close>, and
  likewise \<open>v\<close>, unchanged: no hierarchy is built, and tree data with its expansion
  flags, the set of expanded ids, the selected id and the render cache stay as they
  were.
\<close>

theorem rebuild_idempotent:
  assumes "generateComponentsHash (getAllComponents body2)
             = generateComponentsHash (getAllComponents body1)"
    and "v1 = snd (buildTreeData body1 v0)"
    and "lastComponentsHash v = lastComponentsHash v1" and "treeData v \<noteq> None"
  shows "treeData v1 \<noteq> None
       \<and> buildTreeData body2 v1 = (Inr (), v1)
       \<and> buildTreeData body2 v = (Inr (), v)"
proof -
  from assms(2) have h1: "lastComponentsHash v1
      = Some (generateComponentsHash (getAllComponents body2))"
    by (simp add: buildTreeData_hash assms(1))
  from assms(2) buildTreeData_first [of body1 v0] have t1: "treeData v1 \<noteq> None" by simp
  from buildTreeData_cached [OF h1 t1] buildTreeData_cached [of v body2] h1 assms(3,4) t1
  show ?thesis by simp
qed

text \<open>
  On the example page, with \<open>exampleView\<close>: after the first build \<open>App\<close> was
  expanded and \<open>Button\<close> selected; the second build leaves this view as it is.
\<close>

theorem rebuild_idempotent_witness:
  "expandedNodes exampleView = {''node-0''}
   \<and> selectedNodeId exampleView = Some ''node-1''
   \<and> treeData exampleView \<noteq> None
   \<and> buildTreeData examplePage exampleView = (Inr (), exampleView)"
proof -
  have e: "expandedNodes exampleView = {''node-0''}"
    and s: "selectedNodeId exampleView = Some ''node-1''"
    by code_simp+
  have l: "lastComponentsHash exampleView
             = lastComponentsHash (snd (buildTreeData examplePage initialView))"
    by (simp add: exampleView_def selectNode_keeps toggleNodeExpansion_hash)
  have "treeData (snd (buildTreeData examplePage initialView)) \<noteq> None"
    using buildTreeData_first [of examplePage initialView] by blast
  then have "treeData (toggleNodeExpansion 0 (snd (buildTreeData examplePage initialView)))
               \<noteq> None"
    by (rule toggleNodeExpansion_data)
  then have t: "treeData exampleView \<noteq> None"
    by (simp add: exampleView_def selectNode_keeps)
  from rebuild_idempotent [OF refl refl l t] e s t show ?thesis by simp
qed

end
